theory Spec2Isabelle
  imports Main "HOL-Library.AList" "HOL-Library.Sublist"
begin

section \<open>JavaScript values\<close>

text \<open>
  The values that documents, queries and update partials are made of. Numbers are
  integers (no \<open>NaN\<close>, no infinities, no fractions); characters are bytes, so strings
  are compared as ASCII. An object is the list of its own properties in enumeration
  order, and property access reads the first entry of a key.
\<close>

datatype jsval =
    Undefined
  | Null
  | Bool bool
  | Num int
  | Str string
  | Arr "jsval list"
  | Obj "(string \<times> jsval) list"

type_synonym object = "(string \<times> jsval) list"

text \<open>
  The names of the members that every object inherits from \<open>Object.prototype\<close>.
  For such a name \<open>obj[field]\<close> of an object without an own property of that name
  is the inherited function (for \<open>__proto__\<close>, the prototype), a value that is not
  among the values above.
\<close>

definition inherited_members :: "string list" where
  "inherited_members =
     [''constructor'', ''hasOwnProperty'', ''isPrototypeOf'', ''propertyIsEnumerable'',
      ''toLocaleString'', ''toString'', ''valueOf'', ''__proto__'', ''__defineGetter__'',
      ''__defineSetter__'', ''__lookupGetter__'', ''__lookupSetter__'']"

text \<open>
  \<open>obj[field]\<close>: the own property, or \<open>undefined\<close> when the object has none. This
  is what the source reads for every field name outside \<open>inherited_members\<close>; a
  statement about a property that is not there is made for those names only.
\<close>

definition get_prop :: "object \<Rightarrow> string \<Rightarrow> jsval" where
  "get_prop obj f = (case map_of obj f of None \<Rightarrow> Undefined | Some v \<Rightarrow> v)"

text \<open>\<open>Object.keys(obj)\<close>, also the order of \<open>for (k in obj)\<close>.\<close>

definition Object_keys :: "object \<Rightarrow> string list" where
  "Object_keys obj = map fst obj"

text \<open>Truthiness, as \<open>!x\<close> and \<open>x ? a : b\<close> read it.\<close>

fun truthy :: "jsval \<Rightarrow> bool" where
  "truthy Undefined = False"
| "truthy Null = False"
| "truthy (Bool b) = b"
| "truthy (Num n) = (n \<noteq> 0)"
| "truthy (Str s) = (s \<noteq> [])"
| "truthy (Arr xs) = True"
| "truthy (Obj kvs) = True"

text \<open>
  \<open>a === b\<close>. Arrays and objects are equal only to themselves; a value read from a
  freshly decoded document never is the array or object a caller passed in, so the
  comparison of two of them is \<open>False\<close>.
\<close>

fun strict_eq :: "jsval \<Rightarrow> jsval \<Rightarrow> bool" where
  "strict_eq Undefined Undefined = True"
| "strict_eq Null Null = True"
| "strict_eq (Bool a) (Bool b) = (a = b)"
| "strict_eq (Num a) (Num b) = (a = b)"
| "strict_eq (Str a) (Str b) = (a = b)"
| "strict_eq a b = False"

subsection \<open>Conversion to string\<close>

fun digits :: "nat \<Rightarrow> string" where
  "digits n =
     (if n < 10 then [''0123456789'' ! n]
      else digits (n div 10) @ [''0123456789'' ! (n mod 10)])"

declare digits.simps [simp del]

definition int_to_string :: "int \<Rightarrow> string" where
  "int_to_string i = (if i < 0 then CHR ''-'' # digits (nat (- i)) else digits (nat i))"

fun join_comma :: "string list \<Rightarrow> string" where
  "join_comma [] = []"
| "join_comma [s] = s"
| "join_comma (s # t # ss) = s @ '','' @ join_comma (t # ss)"

text \<open>
  \<open>String(v)\<close>. An array is the comma-joined strings of its elements, where
  \<open>undefined\<close> and \<open>null\<close> elements give the empty string.
\<close>

primrec ToString :: "jsval \<Rightarrow> string" where
  "ToString Undefined = ''undefined''"
| "ToString Null = ''null''"
| "ToString (Bool b) = (if b then ''true'' else ''false'')"
| "ToString (Num n) = int_to_string n"
| "ToString (Str s) = s"
| "ToString (Arr xs) =
     join_comma (map (\<lambda>(x, s). if x = Undefined \<or> x = Null then [] else s)
                     (zip xs (map ToString xs)))"
| "ToString (Obj kvs) = ''[object Object]''"

subsection \<open>Relational comparison\<close>

definition is_space :: "char \<Rightarrow> bool" where
  "is_space c = (c \<in> set [CHR 0x20, CHR 0x09, CHR 0x0A, CHR 0x0B, CHR 0x0C, CHR 0x0D])"

definition trim :: "string \<Rightarrow> string" where
  "trim s = rev (dropWhile is_space (rev (dropWhile is_space s)))"

definition digit_of :: "char \<Rightarrow> nat option" where
  "digit_of c =
     (let n = (of_char c :: nat) in if 48 \<le> n \<and> n \<le> 57 then Some (n - 48) else None)"

fun digits_value :: "nat \<Rightarrow> string \<Rightarrow> nat option" where
  "digits_value acc [] = Some acc"
| "digits_value acc (c # cs) =
     (case digit_of c of None \<Rightarrow> None | Some d \<Rightarrow> digits_value (10 * acc + d) cs)"

definition unsigned_value :: "string \<Rightarrow> nat option" where
  "unsigned_value s = (if s = [] then None else digits_value 0 s)"

text \<open>
  \<open>Number(s)\<close> of a string, where \<open>None\<close> is \<open>NaN\<close>: surrounding white space is
  dropped, the empty string is 0, and a decimal integer literal with an optional sign
  is its value. The other numeric literals of JavaScript (fractions, exponents, hex,
  \<open>Infinity\<close>) have no integer model here and read as \<open>NaN\<close>.
\<close>

definition StringToNumber :: "string \<Rightarrow> int option" where
  "StringToNumber s =
     (case trim s of
        [] \<Rightarrow> Some 0
      | c # cs \<Rightarrow>
          if c = CHR ''-'' then map_option (\<lambda>n. - int n) (unsigned_value cs)
          else if c = CHR ''+'' then map_option int (unsigned_value cs)
          else map_option int (unsigned_value (c # cs)))"

text \<open>\<open>ToPrimitive\<close>: arrays and plain objects become their strings.\<close>

fun ToPrimitive :: "jsval \<Rightarrow> jsval" where
  "ToPrimitive (Arr xs) = Str (ToString (Arr xs))"
| "ToPrimitive (Obj kvs) = Str (ToString (Obj kvs))"
| "ToPrimitive v = v"

text \<open>\<open>ToNumber\<close> of a primitive; \<open>None\<close> is \<open>NaN\<close>.\<close>

fun ToNumber :: "jsval \<Rightarrow> int option" where
  "ToNumber Undefined = None"
| "ToNumber Null = Some 0"
| "ToNumber (Bool b) = Some (if b then 1 else 0)"
| "ToNumber (Num n) = Some n"
| "ToNumber (Str s) = StringToNumber s"
| "ToNumber v = None"

fun str_lt :: "string \<Rightarrow> string \<Rightarrow> bool" where
  "str_lt [] [] = False"
| "str_lt [] (y # ys) = True"
| "str_lt (x # xs) [] = False"
| "str_lt (x # xs) (y # ys) =
     ((of_char x :: nat) < of_char y \<or> (x = y \<and> str_lt xs ys))"

text \<open>
  The abstract relational comparison \<open>a < b\<close> of ECMAScript: \<open>Some True\<close>,
  \<open>Some False\<close>, or \<open>None\<close> (undefined) when a side converts to \<open>NaN\<close>. Two strings
  are compared as strings, everything else as numbers.
\<close>

definition js_compare :: "jsval \<Rightarrow> jsval \<Rightarrow> bool option" where
  "js_compare a b =
     (case (ToPrimitive a, ToPrimitive b) of
        (Str x, Str y) \<Rightarrow> Some (str_lt x y)
      | (p, q) \<Rightarrow>
          (case (ToNumber p, ToNumber q) of
             (Some m, Some n) \<Rightarrow> Some (m < n)
           | _ \<Rightarrow> None))"

definition js_lt :: "jsval \<Rightarrow> jsval \<Rightarrow> bool" where
  "js_lt a b = (js_compare a b = Some True)"

definition js_gt :: "jsval \<Rightarrow> jsval \<Rightarrow> bool" where
  "js_gt a b = (js_compare b a = Some True)"

definition js_lte :: "jsval \<Rightarrow> jsval \<Rightarrow> bool" where
  "js_lte a b = (js_compare b a = Some False)"

definition js_gte :: "jsval \<Rightarrow> jsval \<Rightarrow> bool" where
  "js_gte a b = (js_compare a b = Some False)"

section \<open>The document codec\<close>

text \<open>
  A JSON text is represented by the value it denotes, so every text is well formed and
  \<open>JSON.parse\<close> does not raise: it embeds the text into the values.
  \<open>JSON.stringify\<close> leaves out the properties whose value is \<open>undefined\<close> and
  writes \<open>null\<close> for an \<open>undefined\<close> array element.
\<close>

datatype json =
    JNull
  | JBool bool
  | JNum int
  | JStr string
  | JArr "json list"
  | JObj "(string \<times> json) list"

primrec parse_value :: "json \<Rightarrow> jsval" where
  "parse_value JNull = Null"
| "parse_value (JBool b) = Bool b"
| "parse_value (JNum n) = Num n"
| "parse_value (JStr s) = Str s"
| "parse_value (JArr xs) = Arr (map parse_value xs)"
| "parse_value (JObj kvs) = Obj (map (map_prod id parse_value) kvs)"

fun members :: "(string \<times> json option) list \<Rightarrow> (string \<times> json) list" where
  "members [] = []"
| "members ((k, None) # rest) = members rest"
| "members ((k, Some j) # rest) = (k, j) # members rest"

primrec stringify_value :: "jsval \<Rightarrow> json option" where
  "stringify_value Undefined = None"
| "stringify_value Null = Some JNull"
| "stringify_value (Bool b) = Some (JBool b)"
| "stringify_value (Num n) = Some (JNum n)"
| "stringify_value (Str s) = Some (JStr s)"
| "stringify_value (Arr xs) =
     Some (JArr (map (\<lambda>j. case j of None \<Rightarrow> JNull | Some t \<Rightarrow> t) (map stringify_value xs)))"
| "stringify_value (Obj kvs) = Some (JObj (members (map (map_prod id stringify_value) kvs)))"

text \<open>The text of a document: the members of a JSON object.\<close>

type_synonym json_text = "(string \<times> json) list"

definition JSON_parse :: "json_text \<Rightarrow> object" where
  "JSON_parse raw = map (map_prod id parse_value) raw"

definition JSON_stringify :: "object \<Rightarrow> json_text" where
  "JSON_stringify doc = members (map (map_prod id stringify_value) doc)"

text \<open>
  The values that survive the codec: those without \<open>undefined\<close> anywhere inside.
\<close>

primrec representable :: "jsval \<Rightarrow> bool" where
  "representable Undefined = False"
| "representable Null = True"
| "representable (Bool b) = True"
| "representable (Num n) = True"
| "representable (Str s) = True"
| "representable (Arr xs) = list_all (\<lambda>b. b) (map representable xs)"
| "representable (Obj kvs) = list_all snd (map (map_prod id representable) kvs)"

definition representable_doc :: "object \<Rightarrow> bool" where
  "representable_doc doc = list_all (\<lambda>(k, v). representable v) doc"

section \<open>The key-value store\<close>

text \<open>
  The store holds one document text per key, the text of an object and never the
  empty string: the test \<open>!raw\<close> of the source succeeds exactly when the key has no
  entry. A key that occurs twice in the list is read at its first entry. The order of
  the list stands for the order in which the store enumerates its keys.
  \<open>redis_keys p\<close> is \<open>KEYS p*\<close> for a prefix \<open>p\<close> without glob characters.
\<close>

type_synonym store = "(string \<times> json_text) list"

definition redis_get :: "string \<Rightarrow> store \<Rightarrow> json_text option" where
  "redis_get k s = map_of s k"

definition redis_set :: "string \<Rightarrow> json_text \<Rightarrow> store \<Rightarrow> store" where
  "redis_set k v s = AList.update k v s"

definition redis_keys :: "string \<Rightarrow> store \<Rightarrow> string list" where
  "redis_keys p s = filter (prefix p) (remdups (map fst s))"

section \<open>QueryBuilder\<close>

record QueryBuilder =
  dataFetcher :: "store \<Rightarrow> object list"
  qsort :: "(string \<times> int) list option"
  qlimit :: "int option"
  qskip :: int

definition new_QueryBuilder :: "(store \<Rightarrow> object list) \<Rightarrow> QueryBuilder" where
  "new_QueryBuilder fetcher =
     \<lparr>dataFetcher = fetcher, qsort = None, qlimit = None, qskip = 0\<rparr>"

definition QueryBuilder_sort :: "(string \<times> int) list \<Rightarrow> QueryBuilder \<Rightarrow> QueryBuilder" where
  "QueryBuilder_sort spec qb = qb\<lparr>qsort := Some spec\<rparr>"

definition QueryBuilder_limit :: "int \<Rightarrow> QueryBuilder \<Rightarrow> QueryBuilder" where
  "QueryBuilder_limit n qb = qb\<lparr>qlimit := Some n\<rparr>"

definition QueryBuilder_skip :: "int \<Rightarrow> QueryBuilder \<Rightarrow> QueryBuilder" where
  "QueryBuilder_skip n qb = qb\<lparr>qskip := n\<rparr>"

text \<open>The comparator that \<open>exec\<close> hands to \<open>Array.prototype.sort\<close>.\<close>

fun comparator :: "(string \<times> int) list \<Rightarrow> object \<Rightarrow> object \<Rightarrow> int" where
  "comparator [] a b = 0"
| "comparator ((key, dir) # rest) a b =
     (if js_lt (get_prop a key) (get_prop b key) then - 1 * dir
      else if js_gt (get_prop a key) (get_prop b key) then 1 * dir
      else comparator rest a b)"

text \<open>
  \<open>Array.prototype.sort\<close> as a stable insertion sort: an element stays before the
  later elements it does not compare greater than. Where the comparator is not
  consistent the order an engine produces is implementation-defined.
\<close>

fun insert_by :: "('a \<Rightarrow> 'a \<Rightarrow> int) \<Rightarrow> 'a \<Rightarrow> 'a list \<Rightarrow> 'a list" where
  "insert_by cmp x [] = [x]"
| "insert_by cmp x (y # ys) = (if cmp x y \<le> 0 then x # y # ys else y # insert_by cmp x ys)"

definition Array_sort :: "('a \<Rightarrow> 'a \<Rightarrow> int) \<Rightarrow> 'a list \<Rightarrow> 'a list" where
  "Array_sort cmp xs = foldr (insert_by cmp) xs []"

text \<open>\<open>xs.slice(n)\<close> for \<open>n > 0\<close>, and \<open>xs.slice(0, n)\<close>, where a negative \<open>n\<close>
  counts from the end.\<close>

definition slice_from :: "int \<Rightarrow> 'a list \<Rightarrow> 'a list" where
  "slice_from n xs = drop (nat n) xs"

definition slice_to :: "int \<Rightarrow> 'a list \<Rightarrow> 'a list" where
  "slice_to n xs = take (nat (if n < 0 then int (length xs) + n else n)) xs"

definition QueryBuilder_exec :: "QueryBuilder \<Rightarrow> store \<Rightarrow> object list" where
  "QueryBuilder_exec qb s =
     (let results = dataFetcher qb s;
          results = (case qsort qb of
                       None \<Rightarrow> results
                     | Some spec \<Rightarrow> Array_sort (comparator spec) results);
          results = (if qskip qb > 0 then slice_from (qskip qb) results else results);
          results = (case qlimit qb of
                       None \<Rightarrow> results
                     | Some n \<Rightarrow> slice_to n results)
      in results)"

section \<open>Model (the schema-bound collection)\<close>

definition Model_key :: "string \<Rightarrow> string \<Rightarrow> string" where
  "Model_key name ident = name @ '':'' @ ident"

definition Array_includes :: "jsval list \<Rightarrow> jsval \<Rightarrow> bool" where
  "Array_includes xs v = list_ex (\<lambda>x. strict_eq x v) xs"

text \<open>The \<open>for (op in condition)\<close> loop of \<open>_matchesQuery\<close> with its \<open>switch\<close>.\<close>

fun operators_loop :: "object \<Rightarrow> jsval \<Rightarrow> string list \<Rightarrow> bool" where
  "operators_loop condition v [] = True"
| "operators_loop condition v (op # ops) =
     (let operand = get_prop condition op in
      if op = ''$gt'' then
        (if \<not> js_gt v operand then False else operators_loop condition v ops)
      else if op = ''$gte'' then
        (if \<not> js_gte v operand then False else operators_loop condition v ops)
      else if op = ''$lt'' then
        (if \<not> js_lt v operand then False else operators_loop condition v ops)
      else if op = ''$lte'' then
        (if \<not> js_lte v operand then False else operators_loop condition v ops)
      else if op = ''$in'' then
        (if (case operand of Arr xs \<Rightarrow> \<not> Array_includes xs v | _ \<Rightarrow> True) then False
         else operators_loop condition v ops)
      else if op = ''$nin'' then
        (if (case operand of Arr xs \<Rightarrow> Array_includes xs v | _ \<Rightarrow> False) then False
         else operators_loop condition v ops)
      else if op = ''$ne'' then
        (if strict_eq v operand then False else operators_loop condition v ops)
      else False)"

definition Model_matchesQuery :: "object \<Rightarrow> object \<Rightarrow> bool" where
  "Model_matchesQuery doc query =
     list_all (\<lambda>(field, condition).
        let v = get_prop doc field in
        case condition of
          Obj c \<Rightarrow> operators_loop c v (Object_keys c)
        | _ \<Rightarrow> strict_eq v condition) query"

text \<open>The loop of the fetcher that \<open>find\<close> builds, over the enumerated keys.\<close>

fun fetch_loop :: "store \<Rightarrow> object \<Rightarrow> string list \<Rightarrow> object list" where
  "fetch_loop s query [] = []"
| "fetch_loop s query (k # ks) =
     (case redis_get k s of
        None \<Rightarrow> fetch_loop s query ks
      | Some raw \<Rightarrow>
          (let doc = JSON_parse raw in
           if Model_matchesQuery doc query then doc # fetch_loop s query ks
           else fetch_loop s query ks))"

definition Model_find :: "string \<Rightarrow> object \<Rightarrow> QueryBuilder" where
  "Model_find name query =
     new_QueryBuilder (\<lambda>s. fetch_loop s query (redis_keys (name @ '':'') s))"

definition Model_findOne :: "string \<Rightarrow> object \<Rightarrow> store \<Rightarrow> object option" where
  "Model_findOne name query s =
     (let results = QueryBuilder_exec (QueryBuilder_limit 1 (Model_find name query)) s
      in if length results > 0 then Some (results ! 0) else None)"

definition Model_findById :: "string \<Rightarrow> string \<Rightarrow> store \<Rightarrow> object option" where
  "Model_findById name ident s = map_option JSON_parse (redis_get (Model_key name ident) s)"

text \<open>\<open>Object.assign(target, source)\<close>: each key of the source is set on the target.\<close>

definition Object_assign :: "object \<Rightarrow> object \<Rightarrow> object" where
  "Object_assign target source =
     foldl (\<lambda>t k. AList.update k (get_prop source k) t) target (Object_keys source)"

definition Model_update :: "string \<Rightarrow> string \<Rightarrow> object \<Rightarrow> store \<Rightarrow> object option \<times> store" where
  "Model_update name ident data s =
     (let key = Model_key name ident in
      case redis_get key s of
        None \<Rightarrow> (None, s)
      | Some raw \<Rightarrow>
          (let doc = Object_assign (JSON_parse raw) data
           in (Some doc, redis_set key (JSON_stringify doc) s)))"

text \<open>\<open>a ?? b\<close>.\<close>

definition nullish_or :: "jsval \<Rightarrow> jsval \<Rightarrow> jsval" where
  "nullish_or a b = (if a = Undefined \<or> a = Null then b else a)"

text \<open>
  \<open>create\<close>; the identifier the generator returns is the parameter \<open>uuid\<close>, and the
  schema is the list of the fields its definition declares.
\<close>

definition Model_create :: "string \<Rightarrow> string \<Rightarrow> string list \<Rightarrow> object \<Rightarrow> store \<Rightarrow> object \<times> store" where
  "Model_create uuid name schema data s =
     (let ident = uuid;
          doc = foldl (\<lambda>d field. AList.update field (nullish_or (get_prop data field) Null) d)
                      [(''_id'', Str ident)] schema
      in (doc, redis_set (Model_key name ident) (JSON_stringify doc) s))"

section \<open>RedisModel (the schema-less collection)\<close>

text \<open>
  The methods of a model whose client is connected: \<open>getRedisClient()\<close> returns the
  client, and the store below is that client's. The only exception that the methods
  themselves can raise on the values above is the \<open>TypeError\<close> of calling
  \<open>includes\<close> on an operand that has no such method.
\<close>

datatype error = TypeError

definition RedisModel_getKey :: "string \<Rightarrow> string \<Rightarrow> string" where
  "RedisModel_getKey modelName ident = modelName @ '':'' @ ident"

text \<open>
  \<open>x.includes(v)\<close>: \<open>Array.prototype.includes\<close> on an array,
  \<open>String.prototype.includes\<close> (a substring search for \<open>String(v)\<close>) on a string,
  and a \<open>TypeError\<close> on everything else.
\<close>

fun includes_call :: "jsval \<Rightarrow> jsval \<Rightarrow> error + bool" where
  "includes_call (Arr xs) v = Inr (Array_includes xs v)"
| "includes_call (Str s) v = Inr (sublist (ToString v) s)"
| "includes_call x v = Inl TypeError"

text \<open>
  The seven checks that \<open>_matches\<close> makes on an operator object. \<open>Inr False\<close> is
  its \<open>return false\<close>; \<open>Inr True\<close> is falling through to the next field.
\<close>

definition operators_pass :: "object \<Rightarrow> jsval \<Rightarrow> error + bool" where
  "operators_pass op v =
     (if get_prop op ''$gt'' \<noteq> Undefined \<and> \<not> js_gt v (get_prop op ''$gt'') then Inr False
      else if get_prop op ''$gte'' \<noteq> Undefined \<and> \<not> js_gte v (get_prop op ''$gte'') then Inr False
      else if get_prop op ''$lt'' \<noteq> Undefined \<and> \<not> js_lt v (get_prop op ''$lt'') then Inr False
      else if get_prop op ''$lte'' \<noteq> Undefined \<and> \<not> js_lte v (get_prop op ''$lte'') then Inr False
      else
        case (if get_prop op ''$in'' \<noteq> Undefined then includes_call (get_prop op ''$in'') v
              else Inr True) of
          Inl e \<Rightarrow> Inl e
        | Inr isin \<Rightarrow>
            if \<not> isin then Inr False
            else
              case (if get_prop op ''$nin'' \<noteq> Undefined then includes_call (get_prop op ''$nin'') v
                    else Inr False) of
                Inl e \<Rightarrow> Inl e
              | Inr isnin \<Rightarrow>
                  if isnin then Inr False
                  else if get_prop op ''$ne'' \<noteq> Undefined \<and> strict_eq v (get_prop op ''$ne'')
                  then Inr False
                  else Inr True)"

fun RedisModel_matches :: "object \<Rightarrow> object \<Rightarrow> error + bool" where
  "RedisModel_matches doc [] = Inr True"
| "RedisModel_matches doc ((field, cond) # rest) =
     (let v = get_prop doc field in
      case cond of
        Obj op \<Rightarrow>
          (case operators_pass op v of
             Inl e \<Rightarrow> Inl e
           | Inr pass \<Rightarrow> if pass then RedisModel_matches doc rest else Inr False)
      | _ \<Rightarrow> if \<not> strict_eq v cond then Inr False else RedisModel_matches doc rest)"

fun find_loop :: "store \<Rightarrow> object \<Rightarrow> string list \<Rightarrow> error + object list" where
  "find_loop s query [] = Inr []"
| "find_loop s query (k # ks) =
     (case redis_get k s of
        None \<Rightarrow> find_loop s query ks
      | Some data \<Rightarrow>
          (let doc = JSON_parse data in
           case RedisModel_matches doc query of
             Inl e \<Rightarrow> Inl e
           | Inr m \<Rightarrow>
               (case find_loop s query ks of
                  Inl e \<Rightarrow> Inl e
                | Inr results \<Rightarrow> Inr (if m then doc # results else results))))"

definition RedisModel_find :: "string \<Rightarrow> object \<Rightarrow> store \<Rightarrow> error + object list" where
  "RedisModel_find modelName query s = find_loop s query (redis_keys (modelName @ '':'') s)"

fun findOne_loop :: "store \<Rightarrow> object \<Rightarrow> string list \<Rightarrow> error + object option" where
  "findOne_loop s query [] = Inr None"
| "findOne_loop s query (k # ks) =
     (case redis_get k s of
        None \<Rightarrow> findOne_loop s query ks
      | Some data \<Rightarrow>
          (let doc = JSON_parse data in
           case RedisModel_matches doc query of
             Inl e \<Rightarrow> Inl e
           | Inr m \<Rightarrow> if m then Inr (Some doc) else findOne_loop s query ks))"

definition RedisModel_findOne :: "string \<Rightarrow> object \<Rightarrow> store \<Rightarrow> error + object option" where
  "RedisModel_findOne modelName query s =
     findOne_loop s query (redis_keys (modelName @ '':'') s)"

text \<open>The object literal \<open>{...a, ...b}\<close>.\<close>

definition spread :: "object \<Rightarrow> object \<Rightarrow> object" where
  "spread a b = Object_assign (Object_assign [] a) b"

text \<open>
  \<open>create\<close> of unnamed/part_001, with \<open>doc.id ?? uuidv4()\<close>; the identifier the
  generator would return is the parameter \<open>uuid\<close>.
\<close>

definition RedisModel_create :: "string \<Rightarrow> string \<Rightarrow> object \<Rightarrow> store \<Rightarrow> object \<times> store" where
  "RedisModel_create uuid modelName doc s =
     (let ident = nullish_or (get_prop doc ''id'') (Str uuid);
          newDoc = spread doc [(''id'', ident)]
      in (newDoc,
          redis_set (RedisModel_getKey modelName (ToString ident)) (JSON_stringify newDoc) s))"

text \<open>\<open>a || b\<close>.\<close>

definition logical_or :: "jsval \<Rightarrow> jsval \<Rightarrow> jsval" where
  "logical_or a b = (if truthy a then a else b)"

text \<open>\<open>create\<close> of src/redis-orm.ts, with \<open>doc.id || uuidv4()\<close>.\<close>

definition RedisModel_create_v1 :: "string \<Rightarrow> string \<Rightarrow> object \<Rightarrow> store \<Rightarrow> object \<times> store" where
  "RedisModel_create_v1 uuid modelName doc s =
     (let ident = logical_or (get_prop doc ''id'') (Str uuid);
          newDoc = spread doc [(''id'', ident)]
      in (newDoc,
          redis_set (RedisModel_getKey modelName (ToString ident)) (JSON_stringify newDoc) s))"

text \<open>
  \<open>find\<close> of src/redis-orm.ts, whose matcher is written inline: it knows \<open>$gt\<close>,
  \<open>$lt\<close> and \<open>$in\<close>, sets a flag instead of returning, and takes every non-null
  object, arrays included, for an operator object (an array has none of the three
  properties, so it leaves the flag as it is).
\<close>

fun match_loop_v1 :: "object \<Rightarrow> object \<Rightarrow> bool \<Rightarrow> error + bool" where
  "match_loop_v1 doc [] match = Inr match"
| "match_loop_v1 doc ((field, condition) # rest) match =
     (let v = get_prop doc field in
      case condition of
        Obj cond \<Rightarrow>
          (let m1 = (if get_prop cond ''$gt'' \<noteq> Undefined \<and> \<not> js_gt v (get_prop cond ''$gt'')
                     then False else match);
               m2 = (if get_prop cond ''$lt'' \<noteq> Undefined \<and> \<not> js_lt v (get_prop cond ''$lt'')
                     then False else m1)
           in case (if get_prop cond ''$in'' \<noteq> Undefined
                    then includes_call (get_prop cond ''$in'') v else Inr True) of
                Inl e \<Rightarrow> Inl e
              | Inr isin \<Rightarrow> match_loop_v1 doc rest (if \<not> isin then False else m2))
      | Arr xs \<Rightarrow> match_loop_v1 doc rest match
      | _ \<Rightarrow> match_loop_v1 doc rest (if \<not> strict_eq v condition then False else match))"

fun find_loop_v1 :: "store \<Rightarrow> object \<Rightarrow> string list \<Rightarrow> error + object list" where
  "find_loop_v1 s query [] = Inr []"
| "find_loop_v1 s query (k # ks) =
     (case redis_get k s of
        None \<Rightarrow> find_loop_v1 s query ks
      | Some data \<Rightarrow>
          (let doc = JSON_parse data in
           case match_loop_v1 doc query True of
             Inl e \<Rightarrow> Inl e
           | Inr m \<Rightarrow>
               (case find_loop_v1 s query ks of
                  Inl e \<Rightarrow> Inl e
                | Inr results \<Rightarrow> Inr (if m then doc # results else results))))"

definition RedisModel_find_v1 :: "string \<Rightarrow> object \<Rightarrow> store \<Rightarrow> error + object list" where
  "RedisModel_find_v1 modelName query s =
     find_loop_v1 s query (redis_keys (modelName @ '':'') s)"

text \<open>
  \<open>findOneAndUpdate\<close>; \<open>returnNew\<close> is \<open>None\<close> when the options leave it out.
\<close>

definition RedisModel_findOneAndUpdate ::
  "string \<Rightarrow> object \<Rightarrow> object \<Rightarrow> bool option \<Rightarrow> store \<Rightarrow> error + (object option \<times> store)" where
  "RedisModel_findOneAndUpdate modelName query upd returnNew s =
     (case RedisModel_findOne modelName query s of
        Inl e \<Rightarrow> Inl e
      | Inr None \<Rightarrow> Inr (None, s)
      | Inr (Some doc) \<Rightarrow>
          if \<not> truthy (get_prop doc ''id'') then Inr (None, s)
          else
            (let updated = spread doc upd;
                 s' = redis_set (RedisModel_getKey modelName (ToString (get_prop doc ''id'')))
                                (JSON_stringify updated) s
             in Inr (if returnNew = Some True then Some updated else Some doc, s')))"

section \<open>Notions of the specification\<close>

text \<open>
  The documents of a collection: what the store holds under the keys that start with
  \<open>name:\<close>, decoded, in the order of the enumeration.
\<close>

definition stored_docs :: "string \<Rightarrow> store \<Rightarrow> object list" where
  "stored_docs name s =
     List.map_filter (\<lambda>k. map_option JSON_parse (redis_get k s)) (redis_keys (name @ '':'') s)"

text \<open>The head of a result, or nothing.\<close>

definition first_of :: "'a list \<Rightarrow> 'a option" where
  "first_of xs = (case xs of [] \<Rightarrow> None | x # _ \<Rightarrow> Some x)"

text \<open>Sort, then skip, then limit.\<close>

definition pipeline :: "(string \<times> int) list \<Rightarrow> int \<Rightarrow> int \<Rightarrow> object list \<Rightarrow> object list" where
  "pipeline S k n results =
     slice_to n ((if k > 0 then slice_from k else id) (Array_sort (comparator S) results))"

definition known_operators :: "string list" where
  "known_operators = [''$gt'', ''$gte'', ''$lt'', ''$lte'', ''$in'', ''$nin'', ''$ne'']"

definition ordering_operators :: "string list" where
  "ordering_operators = [''$gt'', ''$gte'', ''$lt'', ''$lte'']"

text \<open>A condition without the operator keys that no variant knows.\<close>

definition known_only :: "jsval \<Rightarrow> jsval" where
  "known_only cond =
     (case cond of
        Obj c \<Rightarrow> Obj (filter (\<lambda>(k, v). k \<in> set known_operators) c)
      | _ \<Rightarrow> cond)"

text \<open>The collection of the scenarios of the specification.\<close>

definition users :: store where
  "users = [(''User:a'', [(''name'', JStr ''Alice''), (''age'', JNum 25)]),
            (''User:b'', [(''name'', JStr ''Bob''), (''age'', JNum 30)]),
            (''User:c'', [(''name'', JStr ''Charlie''), (''age'', JNum 40)])]"

section \<open>The scan and the predicate evaluator\<close>

lemma fetch_loop_filter:
  "fetch_loop s q ks =
     filter (\<lambda>d. Model_matchesQuery d q)
       (List.map_filter (\<lambda>k. map_option JSON_parse (redis_get k s)) ks)"
  by (induction ks) (auto simp: List.map_filter_simps Let_def split: option.splits)

lemma exec_find:
  "QueryBuilder_exec (Model_find name Q) s =
     filter (\<lambda>d. Model_matchesQuery d Q) (stored_docs name s)"
  by (simp add: QueryBuilder_exec_def Model_find_def new_QueryBuilder_def
      fetch_loop_filter stored_docs_def)

lemma set_redis_keys: "set (redis_keys p s) = {k \<in> fst ` set s. prefix p k}"
  by (auto simp: redis_keys_def)

lemma redis_get_in_keys: "redis_get k s = Some raw \<Longrightarrow> k \<in> fst ` set s"
  unfolding redis_get_def by (metis map_of_SomeD fst_conv image_eqI)

lemma set_stored_docs:
  "D \<in> set (stored_docs name s) \<longleftrightarrow>
     (\<exists>k raw. prefix (name @ '':'') k \<and> redis_get k s = Some raw \<and> JSON_parse raw = D)"
proof
  assume "D \<in> set (stored_docs name s)"
  then obtain k raw where "k \<in> set (redis_keys (name @ '':'') s)"
      and "redis_get k s = Some raw" and "D = JSON_parse raw"
    by (auto simp: stored_docs_def List.map_filter_def)
  then show "\<exists>k raw. prefix (name @ '':'') k \<and> redis_get k s = Some raw \<and> JSON_parse raw = D"
    by (auto simp: set_redis_keys)
next
  assume "\<exists>k raw. prefix (name @ '':'') k \<and> redis_get k s = Some raw \<and> JSON_parse raw = D"
  then obtain k raw where p: "prefix (name @ '':'') k" and g: "redis_get k s = Some raw"
      and d: "JSON_parse raw = D"
    by blast
  from g have "k \<in> fst ` set s" by (rule redis_get_in_keys)
  with p have "k \<in> set (redis_keys (name @ '':'') s)" by (simp add: set_redis_keys)
  with g d show "D \<in> set (stored_docs name s)"
    by (force simp: stored_docs_def List.map_filter_def image_iff)
qed

lemma matches_empty: "Model_matchesQuery D []"
  by (simp add: Model_matchesQuery_def)

lemma find_loop_filter:
  "find_loop s q ks = Inr rs \<Longrightarrow>
   rs = filter (\<lambda>d. RedisModel_matches d q = Inr True)
          (List.map_filter (\<lambda>k. map_option JSON_parse (redis_get k s)) ks)"
proof (induction ks arbitrary: rs)
  case Nil
  then show ?case by simp
next
  case (Cons k ks)
  show ?case
  proof (cases "redis_get k s")
    case None
    with Cons show ?thesis by simp
  next
    case (Some data)
    with Cons.prems obtain m rest where m: "RedisModel_matches (JSON_parse data) q = Inr m"
      and rest: "find_loop s q ks = Inr rest" and rs: "rs = (if m then JSON_parse data # rest else rest)"
      by (auto simp: Let_def split: sum.splits)
    from Cons.IH[OF rest] m rs Some show ?thesis
      by (cases m) simp_all
  qed
qed

lemma RedisModel_find_set:
  "RedisModel_find name Q s = Inr results \<Longrightarrow>
   D \<in> set results \<longleftrightarrow>
     (\<exists>k raw. prefix (name @ '':'') k \<and> redis_get k s = Some raw \<and> JSON_parse raw = D)
     \<and> RedisModel_matches D Q = Inr True"
  unfolding RedisModel_find_def
  by (drule find_loop_filter) (simp add: set_stored_docs[unfolded stored_docs_def])

lemma find_loop_empty:
  "find_loop s [] ks = Inr (List.map_filter (\<lambda>k. map_option JSON_parse (redis_get k s)) ks)"
  by (induction ks) (simp_all split: option.splits)

text \<open>
  C1. The result of \<open>find(Q)\<close> holds a document exactly when the store has it under a
  key of the collection's prefix and the predicate evaluator accepts it; the empty
  query accepts every document, so \<open>find({})\<close> returns the whole collection. This holds
  for \<open>Model.find\<close> with \<open>_matchesQuery\<close>, and for \<open>RedisModel.find\<close> with
  \<open>_matches\<close> whenever that \<open>find\<close> returns.
\<close>

theorem find_iff_matches:
  "(D \<in> set (QueryBuilder_exec (Model_find name Q) s) \<longleftrightarrow>
      (\<exists>k raw. prefix (name @ '':'') k \<and> redis_get k s = Some raw \<and> JSON_parse raw = D)
      \<and> Model_matchesQuery D Q)
   \<and> Model_matchesQuery D []
   \<and> QueryBuilder_exec (Model_find name []) s = stored_docs name s
   \<and> (RedisModel_find name Q s = Inr results \<longrightarrow>
        (D \<in> set results \<longleftrightarrow>
           (\<exists>k raw. prefix (name @ '':'') k \<and> redis_get k s = Some raw \<and> JSON_parse raw = D)
           \<and> RedisModel_matches D Q = Inr True))
   \<and> RedisModel_matches D [] = Inr True
   \<and> RedisModel_find name [] s = Inr (stored_docs name s)"
  by (simp add: exec_find set_stored_docs matches_empty RedisModel_find_set)
     (simp add: RedisModel_find_def find_loop_empty stored_docs_def)

theorem find_iff_matches_witness:
  "QueryBuilder_exec (Model_find ''User'' [(''age'', Obj [(''$gte'', Num 30)])])
      [(''User:a'', [(''name'', JStr ''Alice''), (''age'', JNum 25)]),
       (''User:b'', [(''name'', JStr ''Bob''), (''age'', JNum 30)]),
       (''Post:1'', [(''title'', JStr ''Hello''), (''age'', JNum 99)])]
     = [[(''name'', Str ''Bob''), (''age'', Num 30)]]
   \<and> RedisModel_find ''User'' [(''age'', Obj [(''$gte'', Num 30)])]
      [(''User:a'', [(''name'', JStr ''Alice''), (''age'', JNum 25)]),
       (''User:b'', [(''name'', JStr ''Bob''), (''age'', JNum 30)]),
       (''Post:1'', [(''title'', JStr ''Hello''), (''age'', JNum 99)])]
     = Inr [[(''name'', Str ''Bob''), (''age'', Num 30)]]
   \<and> [(''name'', Str ''Bob''), (''age'', Num 30)] \<in> set
       (QueryBuilder_exec (Model_find ''User'' [(''age'', Obj [(''$gte'', Num 30)])])
         [(''User:a'', [(''name'', JStr ''Alice''), (''age'', JNum 25)]),
          (''User:b'', [(''name'', JStr ''Bob''), (''age'', JNum 30)]),
          (''Post:1'', [(''title'', JStr ''Hello''), (''age'', JNum 99)])])
   \<and> [(''name'', Str ''Alice''), (''age'', Num 25)] \<notin> set
       (QueryBuilder_exec (Model_find ''User'' [(''age'', Obj [(''$gte'', Num 30)])])
         [(''User:a'', [(''name'', JStr ''Alice''), (''age'', JNum 25)]),
          (''User:b'', [(''name'', JStr ''Bob''), (''age'', JNum 30)]),
          (''Post:1'', [(''title'', JStr ''Hello''), (''age'', JNum 99)])])"
proof -
  let ?s = "[(''User:a'', [(''name'', JStr ''Alice''), (''age'', JNum 25)]),
             (''User:b'', [(''name'', JStr ''Bob''), (''age'', JNum 30)]),
             (''Post:1'', [(''title'', JStr ''Hello''), (''age'', JNum 99)])]"
  let ?Q = "[(''age'', Obj [(''$gte'', Num 30)])]"
  let ?bob = "[(''name'', Str ''Bob''), (''age'', Num 30)]"
  let ?alice = "[(''name'', Str ''Alice''), (''age'', Num 25)]"
  have model: "QueryBuilder_exec (Model_find ''User'' ?Q) ?s = [?bob]"
    by (simp add: QueryBuilder_exec_def Model_find_def new_QueryBuilder_def redis_keys_def
        redis_get_def JSON_parse_def Model_matchesQuery_def Object_keys_def get_prop_def
        js_gte_def js_compare_def)
  have redis: "RedisModel_find ''User'' ?Q ?s = Inr [?bob]"
    by (simp add: RedisModel_find_def redis_keys_def redis_get_def JSON_parse_def
        operators_pass_def get_prop_def js_gte_def js_compare_def)
  have bob: "Model_matchesQuery ?bob ?Q" and alice: "\<not> Model_matchesQuery ?alice ?Q"
    by (simp_all add: Model_matchesQuery_def Object_keys_def get_prop_def js_gte_def
        js_compare_def)
  have stored: "\<exists>k raw. prefix (''User'' @ '':'') k \<and> redis_get k ?s = Some raw
                  \<and> JSON_parse raw = ?bob"
    by (rule exI[of _ "''User:b''"]) (simp add: redis_get_def JSON_parse_def)
  from find_iff_matches[of ?bob "''User''" ?Q ?s "[?bob]"] stored bob
  have "?bob \<in> set (QueryBuilder_exec (Model_find ''User'' ?Q) ?s)"
    by blast
  moreover from find_iff_matches[of ?alice "''User''" ?Q ?s "[?bob]"] alice
  have "?alice \<notin> set (QueryBuilder_exec (Model_find ''User'' ?Q) ?s)"
    by blast
  ultimately show ?thesis
    using model redis by simp
qed

section \<open>The result pipeline\<close>

lemma exec_chained:
  "qsort b = Some S \<Longrightarrow> qskip b = k \<Longrightarrow> qlimit b = Some n \<Longrightarrow>
   QueryBuilder_exec b s = pipeline S k n (dataFetcher b s)"
  by (simp add: QueryBuilder_exec_def pipeline_def)

text \<open>
  C2. In whichever of the six orders \<open>sort(S)\<close>, \<open>skip(k)\<close> and \<open>limit(n)\<close> are
  chained on a builder, \<open>exec()\<close> sorts the fetched results, then skips, then limits.
\<close>

theorem exec_order_invariant:
  "QueryBuilder_exec (QueryBuilder_limit n (QueryBuilder_skip k (QueryBuilder_sort S b))) s
     = pipeline S k n (dataFetcher b s)
   \<and> QueryBuilder_exec (QueryBuilder_skip k (QueryBuilder_limit n (QueryBuilder_sort S b))) s
     = pipeline S k n (dataFetcher b s)
   \<and> QueryBuilder_exec (QueryBuilder_limit n (QueryBuilder_sort S (QueryBuilder_skip k b))) s
     = pipeline S k n (dataFetcher b s)
   \<and> QueryBuilder_exec (QueryBuilder_sort S (QueryBuilder_limit n (QueryBuilder_skip k b))) s
     = pipeline S k n (dataFetcher b s)
   \<and> QueryBuilder_exec (QueryBuilder_skip k (QueryBuilder_sort S (QueryBuilder_limit n b))) s
     = pipeline S k n (dataFetcher b s)
   \<and> QueryBuilder_exec (QueryBuilder_sort S (QueryBuilder_skip k (QueryBuilder_limit n b))) s
     = pipeline S k n (dataFetcher b s)"
  by (simp add: exec_chained QueryBuilder_sort_def QueryBuilder_skip_def QueryBuilder_limit_def)

text \<open>
  C10. A setter called twice before \<open>exec()\<close> keeps the argument of the last call
  only, for \<open>skip\<close>, for \<open>limit\<close> and for \<open>sort\<close>.
\<close>

theorem setters_overwrite:
  "QueryBuilder_exec (QueryBuilder_skip n (QueryBuilder_skip m b)) s
     = QueryBuilder_exec (QueryBuilder_skip n b) s
   \<and> QueryBuilder_exec (QueryBuilder_limit n (QueryBuilder_limit m b)) s
     = QueryBuilder_exec (QueryBuilder_limit n b) s
   \<and> QueryBuilder_exec (QueryBuilder_sort S2 (QueryBuilder_sort S1 b)) s
     = QueryBuilder_exec (QueryBuilder_sort S2 b) s"
  by (simp add: QueryBuilder_exec_def QueryBuilder_sort_def QueryBuilder_skip_def
      QueryBuilder_limit_def)

lemma fetch_users:
  "dataFetcher (Model_find ''User'' []) users =
     [[(''name'', Str ''Alice''), (''age'', Num 25)],
      [(''name'', Str ''Bob''), (''age'', Num 30)],
      [(''name'', Str ''Charlie''), (''age'', Num 40)]]"
  by (simp add: Model_find_def new_QueryBuilder_def users_def redis_keys_def redis_get_def
      JSON_parse_def Model_matchesQuery_def)

lemma sort_users:
  "Array_sort (comparator [(''age'', - 1)])
     [[(''name'', Str ''Alice''), (''age'', Num 25)],
      [(''name'', Str ''Bob''), (''age'', Num 30)],
      [(''name'', Str ''Charlie''), (''age'', Num 40)]]
   = [[(''name'', Str ''Charlie''), (''age'', Num 40)],
      [(''name'', Str ''Bob''), (''age'', Num 30)],
      [(''name'', Str ''Alice''), (''age'', Num 25)]]"
  by (simp add: Array_sort_def get_prop_def js_lt_def js_gt_def js_compare_def)

theorem exec_order_invariant_witness:
  "QueryBuilder_exec
     (QueryBuilder_limit 1 (QueryBuilder_skip 1 (QueryBuilder_sort [(''age'', - 1)]
        (Model_find ''User'' [])))) users
     = [[(''name'', Str ''Bob''), (''age'', Num 30)]]
   \<and> QueryBuilder_exec
     (QueryBuilder_sort [(''age'', - 1)] (QueryBuilder_skip 1 (QueryBuilder_limit 1
        (Model_find ''User'' [])))) users
     = [[(''name'', Str ''Bob''), (''age'', Num 30)]]"
proof -
  have "pipeline [(''age'', - 1)] 1 1 (dataFetcher (Model_find ''User'' []) users)
          = [[(''name'', Str ''Bob''), (''age'', Num 30)]]"
    by (simp add: pipeline_def fetch_users sort_users slice_from_def slice_to_def)
  with exec_order_invariant[of 1 1 "[(''age'', - 1)]" "Model_find ''User'' []" users]
  show ?thesis by simp
qed

theorem setters_overwrite_witness:
  "QueryBuilder_exec (QueryBuilder_skip 2 (QueryBuilder_skip 1 (Model_find ''User'' []))) users
     = [[(''name'', Str ''Charlie''), (''age'', Num 40)]]
   \<and> QueryBuilder_exec (QueryBuilder_limit 1 (QueryBuilder_limit 2 (Model_find ''User'' []))) users
     = [[(''name'', Str ''Alice''), (''age'', Num 25)]]
   \<and> QueryBuilder_exec
        (QueryBuilder_sort [(''age'', - 1)] (QueryBuilder_sort [(''age'', 1)]
           (Model_find ''User'' []))) users
     = [[(''name'', Str ''Charlie''), (''age'', Num 40)],
        [(''name'', Str ''Bob''), (''age'', Num 30)],
        [(''name'', Str ''Alice''), (''age'', Num 25)]]"
proof -
  have "QueryBuilder_exec (QueryBuilder_skip 2 (Model_find ''User'' [])) users
          = [[(''name'', Str ''Charlie''), (''age'', Num 40)]]"
    and "QueryBuilder_exec (QueryBuilder_limit 1 (Model_find ''User'' [])) users
          = [[(''name'', Str ''Alice''), (''age'', Num 25)]]"
    using fetch_users
    by (simp_all add: QueryBuilder_exec_def QueryBuilder_skip_def QueryBuilder_limit_def
        Model_find_def new_QueryBuilder_def slice_from_def slice_to_def)
  moreover have "QueryBuilder_exec (QueryBuilder_sort [(''age'', - 1)] (Model_find ''User'' []))
                   users
          = [[(''name'', Str ''Charlie''), (''age'', Num 40)],
             [(''name'', Str ''Bob''), (''age'', Num 30)],
             [(''name'', Str ''Alice''), (''age'', Num 25)]]"
  proof -
    have "QueryBuilder_exec (QueryBuilder_sort [(''age'', - 1)] (Model_find ''User'' [])) users
            = Array_sort (comparator [(''age'', - 1)]) (dataFetcher (Model_find ''User'' []) users)"
      by (simp add: QueryBuilder_exec_def QueryBuilder_sort_def Model_find_def
          new_QueryBuilder_def)
    then show ?thesis by (simp only: fetch_users sort_users)
  qed
  ultimately show ?thesis
    using setters_overwrite[of 2 1 "Model_find ''User'' []" users]
      setters_overwrite[of 1 2 "Model_find ''User'' []" users]
      setters_overwrite[of 0 0 "Model_find ''User'' []" users "[(''age'', - 1)]" "[(''age'', 1)]"]
    by simp
qed

section \<open>findOne\<close>

lemma Model_findOne_first:
  "Model_findOne name Q s = first_of (QueryBuilder_exec (Model_find name Q) s)"
proof -
  have "QueryBuilder_exec (QueryBuilder_limit 1 (Model_find name Q)) s =
        take 1 (QueryBuilder_exec (Model_find name Q) s)"
    by (simp add: QueryBuilder_exec_def QueryBuilder_limit_def Model_find_def
        new_QueryBuilder_def slice_to_def)
  then show ?thesis
    by (cases "QueryBuilder_exec (Model_find name Q) s")
       (simp_all add: Model_findOne_def first_of_def)
qed

text \<open>Whether \<open>includes\<close> raises depends on the operand alone, not on the value sought.\<close>

lemma includes_call_Inl_any:
  "includes_call x v = Inl e \<Longrightarrow> includes_call x v' = Inl e"
  by (cases x) auto

lemma operators_pass_Inl:
  "operators_pass op v = Inl e \<Longrightarrow>
     (get_prop op ''$in'' \<noteq> Undefined \<and> includes_call (get_prop op ''$in'') v = Inl e)
   \<or> (get_prop op ''$nin'' \<noteq> Undefined \<and> includes_call (get_prop op ''$nin'') v = Inl e)"
  unfolding operators_pass_def by (simp split: if_splits sum.splits)

lemma operators_pass_True:
  "operators_pass op v = Inr True \<Longrightarrow>
     (get_prop op ''$in'' \<noteq> Undefined \<longrightarrow> (\<exists>b. includes_call (get_prop op ''$in'') v = Inr b))
   \<and> (get_prop op ''$nin'' \<noteq> Undefined \<longrightarrow> (\<exists>b. includes_call (get_prop op ''$nin'') v = Inr b))"
  unfolding operators_pass_def by (simp split: if_splits sum.splits)

lemma operators_pass_total:
  assumes "operators_pass op v = Inr True"
  shows "operators_pass op v' \<noteq> Inl e"
proof
  assume "operators_pass op v' = Inl e"
  from operators_pass_Inl[OF this] operators_pass_True[OF assms]
  show False
    by (auto dest: includes_call_Inl_any[where v'=v])
qed

text \<open>A query that one document satisfies raises on no document.\<close>

lemma matches_total:
  "RedisModel_matches d q = Inr True \<Longrightarrow> RedisModel_matches d' q \<noteq> Inl e"
proof (induction q)
  case Nil
  then show ?case by simp
next
  case (Cons fc q)
  obtain field cond where fc: "fc = (field, cond)" by (cases fc)
  show ?case
  proof (cases cond)
    case (Obj op)
    with Cons.prems fc have p: "operators_pass op (get_prop d field) = Inr True"
      and r: "RedisModel_matches d q = Inr True"
      by (auto split: sum.splits if_splits)
    from operators_pass_total[OF p] Cons.IH[OF r] show ?thesis
      by (auto simp: fc Obj split: sum.splits)
  qed (use Cons fc in \<open>auto split: if_splits\<close>)
qed

lemma find_loop_total:
  "RedisModel_matches d q = Inr True \<Longrightarrow> find_loop s q ks \<noteq> Inl e"
  by (induction ks) (auto simp: Let_def split: option.splits sum.splits dest: matches_total)

lemma findOne_loop_first:
  "findOne_loop s q ks =
     (case find_loop s q ks of Inl e \<Rightarrow> Inl e | Inr results \<Rightarrow> Inr (first_of results))"
proof (induction ks)
  case Nil
  show ?case by (simp add: first_of_def)
next
  case (Cons k ks)
  show ?case
  proof (cases "redis_get k s")
    case None
    with Cons show ?thesis by simp
  next
    case (Some data)
    show ?thesis
    proof (cases "RedisModel_matches (JSON_parse data) q")
      case (Inl e)
      with Some show ?thesis by simp
    next
      case (Inr m)
      show ?thesis
      proof (cases m)
        case True
        with Inr find_loop_total[of "JSON_parse data" q s ks]
        obtain rs where "find_loop s q ks = Inr rs"
          by (cases "find_loop s q ks") auto
        with Some Inr True show ?thesis by (simp add: first_of_def)
      next
        case False
        with Some Inr Cons show ?thesis by (simp split: sum.splits)
      qed
    qed
  qed
qed

text \<open>
  C9. \<open>findOne(Q)\<close> is the head of what \<open>find(Q)\<close> returns, and nothing when that is
  empty: for the Model, where it is \<open>find(Q).limit(1).exec()\<close>, and for the RedisModel,
  where it is a scan of its own that stops at the first match (and raises exactly when
  \<open>find\<close> raises). Both read the store with \<open>KEYS\<close> and \<open>GET\<close> only: they are
  functions of the store and return no store.
\<close>

theorem findOne_is_first_of_find:
  "Model_findOne name Q s = first_of (QueryBuilder_exec (Model_find name Q) s)
   \<and> RedisModel_findOne name Q s =
       (case RedisModel_find name Q s of
          Inl e \<Rightarrow> Inl e
        | Inr results \<Rightarrow> Inr (first_of results))"
  by (simp add: Model_findOne_first RedisModel_findOne_def RedisModel_find_def findOne_loop_first)

theorem findOne_is_first_of_find_witness:
  "Model_findOne ''User'' [(''age'', Obj [(''$gte'', Num 30)])] users
     = Some [(''name'', Str ''Bob''), (''age'', Num 30)]
   \<and> RedisModel_findOne ''User'' [(''age'', Obj [(''$gte'', Num 30)])] users
     = Inr (Some [(''name'', Str ''Bob''), (''age'', Num 30)])
   \<and> Model_findOne ''User'' [(''age'', Obj [(''$gte'', Num 100)])] users = None
   \<and> RedisModel_findOne ''User'' [(''age'', Obj [(''$gte'', Num 100)])] users = Inr None"
proof -
  have "QueryBuilder_exec (Model_find ''User'' [(''age'', Obj [(''$gte'', Num 30)])]) users
          = [[(''name'', Str ''Bob''), (''age'', Num 30)],
             [(''name'', Str ''Charlie''), (''age'', Num 40)]]"
    and "QueryBuilder_exec (Model_find ''User'' [(''age'', Obj [(''$gte'', Num 100)])]) users = []"
    by (simp_all add: QueryBuilder_exec_def Model_find_def new_QueryBuilder_def users_def
        redis_keys_def redis_get_def JSON_parse_def Model_matchesQuery_def Object_keys_def
        get_prop_def js_gte_def js_compare_def)
  moreover have "RedisModel_find ''User'' [(''age'', Obj [(''$gte'', Num 30)])] users
          = Inr [[(''name'', Str ''Bob''), (''age'', Num 30)],
                 [(''name'', Str ''Charlie''), (''age'', Num 40)]]"
    and "RedisModel_find ''User'' [(''age'', Obj [(''$gte'', Num 100)])] users = Inr []"
    by (simp_all add: RedisModel_find_def users_def redis_keys_def redis_get_def JSON_parse_def
        operators_pass_def get_prop_def js_gte_def js_compare_def)
  ultimately show ?thesis
    using findOne_is_first_of_find[of "''User''" "[(''age'', Obj [(''$gte'', Num 30)])]" users]
      findOne_is_first_of_find[of "''User''" "[(''age'', Obj [(''$gte'', Num 100)])]" users]
    by (simp add: first_of_def)
qed

section \<open>update\<close>

lemma members_roundtrip:
  "\<forall>kv \<in> set kvs. stringify_value (parse_value (snd kv)) = Some (snd kv) \<Longrightarrow>
   members (map (map_prod id stringify_value) (map (map_prod id parse_value) kvs)) = kvs"
proof (induction kvs)
  case Nil
  show ?case by simp
next
  case (Cons kv kvs)
  obtain k v where kv: "kv = (k, v)" by (cases kv)
  from Cons.prems kv have v: "stringify_value (parse_value v) = Some v" by simp
  from Cons.prems have "\<forall>kv \<in> set kvs. stringify_value (parse_value (snd kv)) = Some (snd kv)"
    by simp
  then have IH:
    "members (map (map_prod id stringify_value) (map (map_prod id parse_value) kvs)) = kvs"
    by (rule Cons.IH)
  from v IH show ?case
    by (simp add: kv id_def)
qed

lemma stringify_parse_value: "stringify_value (parse_value j) = Some j"
proof (induction j)
  case (JArr xs)
  then show ?case by (simp add: map_idI)
next
  case (JObj kvs)
  have "members (map (map_prod id stringify_value) (map (map_prod id parse_value) kvs)) = kvs"
  proof (rule members_roundtrip, rule ballI)
    fix kv assume "kv \<in> set kvs"
    with JObj[of kv "snd kv"] show "stringify_value (parse_value (snd kv)) = Some (snd kv)"
      by (cases kv) simp
  qed
  then show ?case by simp
qed simp_all

lemma JSON_stringify_parse: "JSON_stringify (JSON_parse raw) = raw"
  unfolding JSON_stringify_def JSON_parse_def
  by (rule members_roundtrip) (simp add: stringify_parse_value)

lemma redis_get_set: "redis_get k' (redis_set k v s) = (if k' = k then Some v else redis_get k' s)"
  by (simp add: redis_get_def redis_set_def update_conv')

lemma redis_set_same: "redis_get k s = Some v \<Longrightarrow> redis_set k v s = s"
  by (simp add: redis_get_def redis_set_def update_triv)

lemma map_of_assign_loop:
  "map_of (foldl (\<lambda>t k. AList.update k (g k) t) t ks) x =
     (if x \<in> set ks then Some (g x) else map_of t x)"
  by (induction ks arbitrary: t) (auto simp: update_conv')

lemma get_prop_assign:
  "get_prop (Object_assign t src) f =
     (if f \<in> set (Object_keys src) then get_prop src f else get_prop t f)"
  by (simp add: Object_assign_def get_prop_def map_of_assign_loop)

lemma Object_assign_empty: "Object_assign t [] = t"
  by (simp add: Object_assign_def Object_keys_def)

lemma members_parse:
  "\<forall>kv \<in> set kvs. \<exists>j. stringify_value (snd kv) = Some j \<and> parse_value j = snd kv \<Longrightarrow>
   map (map_prod id parse_value) (members (map (map_prod id stringify_value) kvs)) = kvs"
proof (induction kvs)
  case Nil
  show ?case by simp
next
  case (Cons kv kvs)
  obtain k v where kv: "kv = (k, v)" by (cases kv)
  from Cons.prems kv obtain j where j: "stringify_value v = Some j" "parse_value j = v" by auto
  from Cons.prems have
    "\<forall>kv \<in> set kvs. \<exists>j. stringify_value (snd kv) = Some j \<and> parse_value j = snd kv"
    by simp
  then have IH:
    "map (map_prod id parse_value) (members (map (map_prod id stringify_value) kvs)) = kvs"
    by (rule Cons.IH)
  from j IH show ?case
    by (simp add: kv id_def)
qed

lemma parse_stringify_value:
  "representable v \<Longrightarrow> \<exists>j. stringify_value v = Some j \<and> parse_value j = v"
proof (induction v)
  case (Arr xs)
  have "map parse_value (map (\<lambda>j. case j of None \<Rightarrow> JNull | Some t \<Rightarrow> t) (map stringify_value xs)) = xs"
  proof -
    have "\<forall>x \<in> set xs. parse_value (case stringify_value x of None \<Rightarrow> JNull | Some t \<Rightarrow> t) = x"
    proof
      fix x assume x: "x \<in> set xs"
      with Arr.prems have "representable x" by (simp add: list_all_iff)
      with Arr.IH[OF x] obtain j where "stringify_value x = Some j" "parse_value j = x" by blast
      then show "parse_value (case stringify_value x of None \<Rightarrow> JNull | Some t \<Rightarrow> t) = x"
        by simp
    qed
    then show ?thesis by (simp add: map_idI)
  qed
  then show ?case by simp
next
  case (Obj kvs)
  have "\<forall>kv \<in> set kvs. \<exists>j. stringify_value (snd kv) = Some j \<and> parse_value j = snd kv"
  proof
    fix kv assume kv: "kv \<in> set kvs"
    with Obj.prems have "representable (snd kv)" by (cases kv) (force simp: list_all_iff)
    with Obj.IH[of kv "snd kv"] kv
    show "\<exists>j. stringify_value (snd kv) = Some j \<and> parse_value j = snd kv"
      by (cases kv) simp
  qed
  then have "map (map_prod id parse_value) (members (map (map_prod id stringify_value) kvs)) = kvs"
    by (rule members_parse)
  then show ?case by simp
qed simp_all

lemma JSON_parse_stringify:
  "representable_doc doc \<Longrightarrow> JSON_parse (JSON_stringify doc) = doc"
proof -
  assume "representable_doc doc"
  then have "\<forall>kv \<in> set doc. representable (snd kv)"
    by (auto simp: representable_doc_def list_all_iff)
  then have "\<forall>kv \<in> set doc. \<exists>j. stringify_value (snd kv) = Some j \<and> parse_value j = snd kv"
    using parse_stringify_value by blast
  then show ?thesis
    unfolding JSON_parse_def JSON_stringify_def by (rule members_parse)
qed

lemma representable_parse_value: "representable (parse_value j)"
  by (induction j) (auto simp: list_all_iff)

lemma representable_JSON_parse: "representable_doc (JSON_parse raw)"
  by (auto simp: representable_doc_def JSON_parse_def list_all_iff representable_parse_value)

lemma set_update_subset: "set (AList.update k v al) \<subseteq> insert (k, v) (set al)"
  by (induction al) auto

lemma get_prop_representable:
  "representable_doc src \<Longrightarrow> k \<in> set (Object_keys src) \<Longrightarrow> representable (get_prop src k)"
proof -
  assume r: "representable_doc src" and k: "k \<in> set (Object_keys src)"
  from k obtain v where v: "map_of src k = Some v"
    by (cases "map_of src k") (auto simp: Object_keys_def map_of_eq_None_iff)
  then have "(k, v) \<in> set src" by (rule map_of_SomeD)
  with r have "representable v" by (auto simp: representable_doc_def list_all_iff)
  with v show ?thesis by (simp add: get_prop_def)
qed

lemma representable_assign_loop:
  "representable_doc t \<Longrightarrow> \<forall>k \<in> set ks. representable (g k) \<Longrightarrow>
   representable_doc (foldl (\<lambda>t k. AList.update k (g k) t) t ks)"
proof (induction ks arbitrary: t)
  case Nil
  then show ?case by simp
next
  case (Cons k ks)
  from Cons.prems have "representable_doc (AList.update k (g k) t)"
    using set_update_subset[of k "g k" t]
    by (auto simp: representable_doc_def list_all_iff)
  with Cons show ?case by simp
qed

lemma representable_assign:
  "representable_doc t \<Longrightarrow> representable_doc src \<Longrightarrow> representable_doc (Object_assign t src)"
  unfolding Object_assign_def
  by (rule representable_assign_loop) (auto intro: get_prop_representable)



text \<open>
  C6. \<open>update(id, {})\<close> on an id whose document exists leaves the store as it was:
  the document decoded from the key after the call is the one decoded before it, which
  is also what the call returns.
\<close>

theorem update_empty_partial:
  assumes "redis_get (Model_key name i) s = Some raw"
  shows "map_option JSON_parse (redis_get (Model_key name i) (snd (Model_update name i [] s)))
           = Some (JSON_parse raw)
       \<and> Model_findById name i (snd (Model_update name i [] s)) = Model_findById name i s
       \<and> snd (Model_update name i [] s) = s
       \<and> fst (Model_update name i [] s) = Some (JSON_parse raw)"
  using assms
  by (simp add: Model_update_def Let_def Object_assign_empty JSON_stringify_parse redis_set_same)

theorem update_empty_partial_witness:
  "snd (Model_update ''User'' ''b'' [] [(''User:b'', [(''name'', JStr ''Bob''), (''age'', JNum 30)])])
     = [(''User:b'', [(''name'', JStr ''Bob''), (''age'', JNum 30)])]
   \<and> fst (Model_update ''User'' ''b'' [] [(''User:b'', [(''name'', JStr ''Bob''), (''age'', JNum 30)])])
     = Some [(''name'', Str ''Bob''), (''age'', Num 30)]"
proof -
  let ?bob = "[(''name'', JStr ''Bob''), (''age'', JNum 30)]"
  have present: "redis_get (Model_key ''User'' ''b'') [(''User:b'', ?bob)] = Some ?bob"
    by (simp add: redis_get_def Model_key_def)
  from update_empty_partial[OF present] show ?thesis
    by (simp add: JSON_parse_def)
qed

section \<open>Unknown operators\<close>

lemma operators_loop_known:
  "operators_loop c v ops \<Longrightarrow> set ops \<subseteq> set known_operators"
  by (induction ops) (auto simp: Let_def known_operators_def split: if_splits)

lemma matchesQuery_entry:
  "Model_matchesQuery doc query \<Longrightarrow> (field, Obj c) \<in> set query \<Longrightarrow>
   operators_loop c (get_prop doc field) (Object_keys c)"
  by (auto simp: Model_matchesQuery_def list_all_iff Let_def)

lemma fail_closed:
  assumes "(field, Obj c) \<in> set query" and "op \<in> set (Object_keys c)"
    and "op \<notin> set known_operators"
  shows "\<not> Model_matchesQuery doc query"
  using assms matchesQuery_entry operators_loop_known by blast

lemma map_of_filter_keys:
  "k \<in> K \<Longrightarrow> map_of (filter (\<lambda>(k, v). k \<in> K) c) k = map_of c k"
  by (induction c) auto

lemma get_prop_known:
  "k \<in> set known_operators \<Longrightarrow>
   get_prop (filter (\<lambda>(k, v). k \<in> set known_operators) c) k = get_prop c k"
  by (simp add: get_prop_def map_of_filter_keys)

lemma operators_pass_known:
  "operators_pass (filter (\<lambda>(k, v). k \<in> set known_operators) c) v = operators_pass c v"
proof -
  have "''$gt'' \<in> set known_operators" "''$gte'' \<in> set known_operators"
    "''$lt'' \<in> set known_operators" "''$lte'' \<in> set known_operators"
    "''$in'' \<in> set known_operators" "''$nin'' \<in> set known_operators"
    "''$ne'' \<in> set known_operators"
    by (simp_all add: known_operators_def)
  then show ?thesis
    unfolding operators_pass_def by (simp only: get_prop_known)
qed

lemma fail_open:
  "RedisModel_matches doc (map (\<lambda>(f, cond). (f, known_only cond)) query) =
   RedisModel_matches doc query"
proof (induction query)
  case Nil
  show ?case by simp
next
  case (Cons fc query)
  obtain f cond where fc: "fc = (f, cond)" by (cases fc)
  show ?case
    by (cases cond)
       (simp_all add: fc known_only_def operators_pass_known Cons.IH[unfolded known_only_def]
          split: sum.splits)
qed

lemma fail_open_v1:
  "match_loop_v1 doc (map (\<lambda>(f, cond). (f, known_only cond)) query) m =
   match_loop_v1 doc query m"
proof (induction query arbitrary: m)
  case Nil
  show ?case by simp
next
  case (Cons fc query)
  obtain f cond where fc: "fc = (f, cond)" by (cases fc)
  have k: "''$gt'' \<in> set known_operators" "''$lt'' \<in> set known_operators"
    "''$in'' \<in> set known_operators"
    by (simp_all add: known_operators_def)
  show ?case
  proof (cases cond)
    case (Obj c)
    have "known_only (Obj c) = Obj (filter (\<lambda>(k, v). k \<in> set known_operators) c)"
      by (simp add: known_only_def)
    then show ?thesis
      by (simp add: fc Obj Let_def get_prop_known[OF k(1)] get_prop_known[OF k(2)]
          get_prop_known[OF k(3)] Cons.IH split: sum.splits)
  qed (simp_all add: fc known_only_def Cons.IH[unfolded known_only_def])
qed

text \<open>
  C3, as amended. \<open>Model._matchesQuery\<close> is fail-closed: a query in which the
  operator object of some field has a key outside \<open>$gt\<close>, \<open>$gte\<close>, \<open>$lt\<close>,
  \<open>$lte\<close>, \<open>$in\<close>, \<open>$nin\<close>, \<open>$ne\<close> matches no document.
  \<open>RedisModel._matches\<close> and the inline matcher of \<open>find\<close> in src/redis-orm.ts
  are fail-open: they answer as they do for the query with those keys removed.
\<close>

theorem unknown_operator_policy:
  "((field, Obj c) \<in> set query \<and> op \<in> set (Object_keys c) \<and> op \<notin> set known_operators
      \<longrightarrow> \<not> Model_matchesQuery doc query)
   \<and> RedisModel_matches doc (map (\<lambda>(f, cond). (f, known_only cond)) query)
       = RedisModel_matches doc query
   \<and> match_loop_v1 doc (map (\<lambda>(f, cond). (f, known_only cond)) query) m
       = match_loop_v1 doc query m"
  using fail_closed fail_open fail_open_v1 by blast

theorem unknown_operator_policy_witness:
  "\<not> Model_matchesQuery [(''age'', Num 30)] [(''age'', Obj [(''$regex'', Str ''3'')])]
   \<and> RedisModel_matches [(''age'', Num 30)] [(''age'', Obj [])]
       = RedisModel_matches [(''age'', Num 30)] [(''age'', Obj [(''$regex'', Str ''3'')])]
   \<and> match_loop_v1 [(''age'', Num 30)] [(''age'', Obj [])] True
       = match_loop_v1 [(''age'', Num 30)] [(''age'', Obj [(''$regex'', Str ''3'')])] True"
proof -
  have "''$regex'' \<notin> set known_operators"
    by (simp add: known_operators_def)
  with unknown_operator_policy[of "''age''" "[(''$regex'', Str ''3'')]"
      "[(''age'', Obj [(''$regex'', Str ''3'')])]" "''$regex''" "[(''age'', Num 30)]" True]
  show ?thesis
    by (simp add: Object_keys_def known_only_def known_operators_def)
qed

text \<open>
  C3 as stated fails on \<open>RedisModel._matches\<close>: the document \<open>{age: 30}\<close>
  matches the query \<open>{age: {$regex: "3"}}\<close>.
\<close>

theorem unknown_operator_fail_open:
  "RedisModel_matches [(''age'', Num 30)] [(''age'', Obj [(''$regex'', Str ''3'')])] = Inr True"
  by (simp add: operators_pass_def get_prop_def)

section \<open>Conditions on an absent field\<close>

lemma compare_undefined: "js_compare Undefined b = None" "js_compare a Undefined = None"
  by (simp_all add: js_compare_def split: jsval.splits prod.splits option.splits)

lemma ordering_undefined:
  "\<not> js_gt Undefined x" "\<not> js_gte Undefined x" "\<not> js_lt Undefined x" "\<not> js_lte Undefined x"
  by (simp_all add: js_gt_def js_gte_def js_lt_def js_lte_def compare_undefined)

lemma operators_loop_tail:
  "operators_loop c v (op # ops) \<Longrightarrow> operators_loop c v ops"
  by (simp add: Let_def split: if_splits)

lemma operators_loop_head:
  "op \<in> set ordering_operators \<Longrightarrow> \<not> operators_loop c Undefined (op # ops)"
  by (auto simp: ordering_operators_def Let_def ordering_undefined)

lemma operators_loop_absent:
  "op \<in> set ops \<Longrightarrow> op \<in> set ordering_operators \<Longrightarrow> \<not> operators_loop c Undefined ops"
proof (induction ops)
  case Nil
  then show ?case by simp
next
  case (Cons a ops)
  show ?case
  proof (cases "op = a")
    case True
    with Cons.prems(2) show ?thesis by (simp only: operators_loop_head not_False_eq_True)
  next
    case False
    with Cons.prems have "\<not> operators_loop c Undefined ops" by (simp add: Cons.IH)
    then show ?thesis using operators_loop_tail by blast
  qed
qed

lemma operators_pass_gt:
  "get_prop c ''$gt'' \<noteq> Undefined \<Longrightarrow> operators_pass c Undefined = Inr False"
  by (simp add: operators_pass_def ordering_undefined)

lemma operators_pass_gte:
  "get_prop c ''$gte'' \<noteq> Undefined \<Longrightarrow> operators_pass c Undefined = Inr False"
  by (simp add: operators_pass_def ordering_undefined)

lemma operators_pass_lt:
  "get_prop c ''$lt'' \<noteq> Undefined \<Longrightarrow> operators_pass c Undefined = Inr False"
  by (simp add: operators_pass_def ordering_undefined)

lemma operators_pass_lte:
  "get_prop c ''$lte'' \<noteq> Undefined \<Longrightarrow> operators_pass c Undefined = Inr False"
  by (simp add: operators_pass_def ordering_undefined)

lemma operators_pass_absent:
  "op \<in> set ordering_operators \<Longrightarrow> get_prop c op \<noteq> Undefined \<Longrightarrow>
   operators_pass c Undefined = Inr False"
  using operators_pass_gt operators_pass_gte operators_pass_lt operators_pass_lte
  by (auto simp: ordering_operators_def)

lemma representable_defined: "representable v \<Longrightarrow> v \<noteq> Undefined"
  by (cases v) simp_all

lemma representable_Obj: "representable (Obj c) = representable_doc c"
  by (auto simp: representable_doc_def list_all_iff)

lemma strict_eq_undefined: "strict_eq Undefined v \<Longrightarrow> v = Undefined"
  by (cases v) simp_all

lemma includes_undefined:
  "representable (Arr xs) \<Longrightarrow> \<not> Array_includes xs Undefined"
proof -
  assume "representable (Arr xs)"
  then have "\<forall>x \<in> set xs. x \<noteq> Undefined"
    by (auto simp: list_all_iff dest: representable_defined)
  moreover have "strict_eq x Undefined \<Longrightarrow> x = Undefined" for x
    by (cases x) simp_all
  ultimately show ?thesis
    by (auto simp: Array_includes_def list_ex_iff)
qed

lemma operators_loop_ne_nin:
  assumes "operators_loop c Undefined (op # ops)" and "representable (get_prop c op)"
  shows "op = ''$ne'' \<or> op = ''$nin''"
proof (rule ccontr)
  assume n: "\<not> (op = ''$ne'' \<or> op = ''$nin'')"
  from assms(1) operators_loop_known[of c Undefined "op # ops"]
  have "op \<in> set known_operators" by simp
  with n have "op \<in> set ordering_operators \<or> op = ''$in''"
    by (auto simp: known_operators_def ordering_operators_def)
  then show False
  proof
    assume "op \<in> set ordering_operators"
    with assms(1) operators_loop_head show False by blast
  next
    assume i: "op = ''$in''"
    show False
    proof (cases "get_prop c ''$in''")
      case (Arr xs)
      with assms(2) i have "representable (Arr xs)" by simp
      then have "\<not> Array_includes xs Undefined" by (rule includes_undefined)
      with assms(1) i Arr show False by (simp add: Let_def)
    qed (use assms(1) i in \<open>simp_all add: Let_def\<close>)
  qed
qed


lemma operators_loop_only_ne_nin:
  "operators_loop c Undefined ops \<Longrightarrow> \<forall>op \<in> set ops. representable (get_prop c op) \<Longrightarrow>
   set ops \<subseteq> {''$ne'', ''$nin''}"
proof (induction ops)
  case Nil
  show ?case by simp
next
  case (Cons op ops)
  from Cons.prems have "op = ''$ne'' \<or> op = ''$nin''"
    by (intro operators_loop_ne_nin[of c op ops]) simp_all
  moreover from Cons.prems(1) have "operators_loop c Undefined ops"
    by (rule operators_loop_tail)
  with Cons have "set ops \<subseteq> {''$ne'', ''$nin''}" by simp
  ultimately show ?case by auto
qed

lemma matchesQuery_cond:
  "Model_matchesQuery doc query \<Longrightarrow> (f, cond) \<in> set query \<Longrightarrow>
   (case cond of
      Obj c \<Rightarrow> operators_loop c (get_prop doc f) (Object_keys c)
    | _ \<Rightarrow> strict_eq (get_prop doc f) cond)"
  by (auto simp: Model_matchesQuery_def list_all_iff Let_def)

lemma Model_only_ne_nin:
  assumes "get_prop doc f = Undefined" and "(f, cond) \<in> set query" and "representable cond"
    and "Model_matchesQuery doc query"
  shows "\<exists>c. cond = Obj c \<and> set (Object_keys c) \<subseteq> {''$ne'', ''$nin''}"
proof (cases cond)
  case (Obj c)
  with matchesQuery_cond[OF assms(4) assms(2)] assms(1)
  have l: "operators_loop c Undefined (Object_keys c)" by simp
  from assms(3) Obj have "representable_doc c" by (simp only: representable_Obj)
  then have "\<forall>op \<in> set (Object_keys c). representable (get_prop c op)"
    using get_prop_representable by blast
  with l have "set (Object_keys c) \<subseteq> {''$ne'', ''$nin''}"
    by (rule operators_loop_only_ne_nin)
  with Obj show ?thesis by simp
qed (use matchesQuery_cond[OF assms(4) assms(2)] assms(1) assms(3) in \<open>simp_all\<close>)

lemma matches_cond:
  "RedisModel_matches doc query = Inr True \<Longrightarrow> (f, cond) \<in> set query \<Longrightarrow>
   (case cond of
      Obj c \<Rightarrow> operators_pass c (get_prop doc f) = Inr True
    | _ \<Rightarrow> strict_eq (get_prop doc f) cond)"
proof (induction query)
  case Nil
  then show ?case by simp
next
  case (Cons fc query)
  obtain g d where fc: "fc = (g, d)" by (cases fc)
  from Cons.prems(1) have rest: "RedisModel_matches doc query = Inr True"
    by (cases d) (auto simp: fc split: sum.splits if_splits)
  show ?case
  proof (cases "(f, cond) = fc")
    case True
    with Cons.prems(1) show ?thesis
      by (cases cond) (auto simp: fc split: sum.splits if_splits)
  next
    case False
    with Cons.prems(2) have "(f, cond) \<in> set query" by auto
    with rest show ?thesis by (rule Cons.IH)
  qed
qed

lemma operators_pass_in:
  "operators_pass c v = Inr True \<Longrightarrow> get_prop c ''$in'' \<noteq> Undefined \<Longrightarrow>
   includes_call (get_prop c ''$in'') v = Inr True"
  unfolding operators_pass_def by (simp split: if_splits sum.splits)

lemma includes_call_undefined:
  "includes_call x Undefined = Inr True \<Longrightarrow> representable x \<Longrightarrow>
   \<exists>s. x = Str s \<and> sublist ''undefined'' s"
proof (cases x)
  case (Arr xs)
  assume "includes_call x Undefined = Inr True" and "representable x"
  with Arr includes_undefined[of xs] show ?thesis by simp
qed simp_all

lemma RedisModel_only_ne_nin:
  assumes "get_prop doc f = Undefined" and "(f, cond) \<in> set query" and "representable cond"
    and "RedisModel_matches doc query = Inr True"
  shows "\<exists>c. cond = Obj c \<and>
           (\<forall>op \<in> set (Object_keys c). op \<in> set known_operators \<longrightarrow>
              op = ''$ne'' \<or> op = ''$nin''
              \<or> (op = ''$in'' \<and> (\<exists>s. get_prop c ''$in'' = Str s \<and> sublist ''undefined'' s)))"
proof (cases cond)
  case (Obj c)
  with matches_cond[OF assms(4) assms(2)] assms(1)
  have p: "operators_pass c Undefined = Inr True" by simp
  from assms(3) Obj have "representable_doc c" by (simp only: representable_Obj)
  then have r: "\<forall>op \<in> set (Object_keys c). representable (get_prop c op)"
    using get_prop_representable by blast
  have "op = ''$ne'' \<or> op = ''$nin''
        \<or> (op = ''$in'' \<and> (\<exists>s. get_prop c ''$in'' = Str s \<and> sublist ''undefined'' s))"
    if k: "op \<in> set (Object_keys c)" and kn: "op \<in> set known_operators" for op
  proof -
    from r k have rep: "representable (get_prop c op)" by blast
    then have d: "get_prop c op \<noteq> Undefined" by (rule representable_defined)
    from kn have "op \<in> set ordering_operators \<or> op = ''$in'' \<or> op = ''$ne'' \<or> op = ''$nin''"
      by (auto simp: known_operators_def ordering_operators_def)
    then show ?thesis
    proof (elim disjE)
      assume "op \<in> set ordering_operators"
      with d have "operators_pass c Undefined = Inr False" by (simp add: operators_pass_absent)
      with p show ?thesis by simp
    next
      assume i: "op = ''$in''"
      with d p have "includes_call (get_prop c ''$in'') Undefined = Inr True"
        by (simp add: operators_pass_in)
      with rep i show ?thesis by (auto dest: includes_call_undefined)
    qed simp_all
  qed
  with Obj show ?thesis by blast
qed (use matches_cond[OF assms(4) assms(2)] assms(1) assms(3) in \<open>simp_all\<close>)

text \<open>
  C8, as amended. Let the document have no field \<open>f\<close>, where \<open>f\<close> is not the name
  of a member that objects inherit, and let the query have a condition on \<open>f\<close>.
  When the condition is an operator object that applies one of \<open>$gt\<close>, \<open>$gte\<close>,
  \<open>$lt\<close>, \<open>$lte\<close>, the document does not match: \<open>Model._matchesQuery\<close> returns
  false whenever the key of the operator is there, and \<open>RedisModel._matches\<close> never
  returns true when the operand of the operator is not \<open>undefined\<close> (that variant
  reads an \<open>undefined\<close> operand as an operator left out). When the condition holds
  no \<open>undefined\<close>, the document can only match via \<open>$ne\<close> or \<open>$nin\<close>:
  \<open>Model._matchesQuery\<close> returns true only for an operator object all of whose keys
  are \<open>$ne\<close> or \<open>$nin\<close> (the operator object without keys is one), and
  \<open>RedisModel._matches\<close> only for an operator object in which every key among the
  seven operators is \<open>$ne\<close> or \<open>$nin\<close>, or is \<open>$in\<close> with a string operand
  that contains \<open>undefined\<close>; the keys outside the seven it ignores.
\<close>

theorem absent_field_conditions:
  assumes "map_of doc f = None" and "f \<notin> set inherited_members" and "(f, cond) \<in> set query"
  shows "(\<forall>c op. cond = Obj c \<and> op \<in> set ordering_operators \<and> op \<in> set (Object_keys c)
            \<longrightarrow> \<not> Model_matchesQuery doc query)
       \<and> (\<forall>c op. cond = Obj c \<and> op \<in> set ordering_operators \<and> get_prop c op \<noteq> Undefined
            \<longrightarrow> RedisModel_matches doc query \<noteq> Inr True)
       \<and> (representable cond \<and> Model_matchesQuery doc query
            \<longrightarrow> (\<exists>c. cond = Obj c \<and> set (Object_keys c) \<subseteq> {''$ne'', ''$nin''}))
       \<and> (representable cond \<and> RedisModel_matches doc query = Inr True
            \<longrightarrow> (\<exists>c. cond = Obj c \<and>
                   (\<forall>op \<in> set (Object_keys c). op \<in> set known_operators \<longrightarrow>
                      op = ''$ne'' \<or> op = ''$nin''
                      \<or> (op = ''$in'' \<and>
                          (\<exists>s. get_prop c ''$in'' = Str s \<and> sublist ''undefined'' s)))))"
proof -
  from assms(1) have u: "get_prop doc f = Undefined" by (simp add: get_prop_def)
  show ?thesis
  proof (intro conjI allI impI)
    fix c op
    assume a: "cond = Obj c \<and> op \<in> set ordering_operators \<and> op \<in> set (Object_keys c)"
    then have "\<not> operators_loop c Undefined (Object_keys c)"
      using operators_loop_absent by blast
    with matchesQuery_cond[OF _ assms(3), of doc] u a show "\<not> Model_matchesQuery doc query"
      by auto
  next
    fix c op
    assume a: "cond = Obj c \<and> op \<in> set ordering_operators \<and> get_prop c op \<noteq> Undefined"
    then have "operators_pass c Undefined = Inr False"
      using operators_pass_absent by blast
    with matches_cond[OF _ assms(3), of doc] u a show "RedisModel_matches doc query \<noteq> Inr True"
      by auto
  next
    assume "representable cond \<and> Model_matchesQuery doc query"
    with u assms(3) show "\<exists>c. cond = Obj c \<and> set (Object_keys c) \<subseteq> {''$ne'', ''$nin''}"
      by (simp add: Model_only_ne_nin)
  next
    assume "representable cond \<and> RedisModel_matches doc query = Inr True"
    with u assms(3) show "\<exists>c. cond = Obj c \<and>
        (\<forall>op \<in> set (Object_keys c). op \<in> set known_operators \<longrightarrow>
           op = ''$ne'' \<or> op = ''$nin''
           \<or> (op = ''$in'' \<and> (\<exists>s. get_prop c ''$in'' = Str s \<and> sublist ''undefined'' s)))"
      by (intro RedisModel_only_ne_nin[of doc f cond query]) simp_all
  qed
qed

theorem absent_field_conditions_witness:
  "\<not> Model_matchesQuery [(''name'', Str ''Bob'')] [(''age'', Obj [(''$gt'', Num 18)])]
   \<and> RedisModel_matches [(''name'', Str ''Bob'')] [(''age'', Obj [(''$gt'', Num 18)])] \<noteq> Inr True
   \<and> \<not> Model_matchesQuery [(''name'', Str ''Bob'')] [(''age'', Obj [(''$in'', Arr [Num 1])])]
   \<and> RedisModel_matches [(''name'', Str ''Bob'')] [(''age'', Obj [(''$in'', Arr [Num 1])])] \<noteq> Inr True
   \<and> \<not> Model_matchesQuery [(''name'', Str ''Bob'')] [(''age'', Null)]
   \<and> Model_matchesQuery [(''name'', Str ''Bob'')] [(''age'', Obj [(''$ne'', Num 30)])]"
proof -
  let ?d = "[(''name'', Str ''Bob'')]"
  have absent: "map_of ?d ''age'' = None"
    by simp
  have own: "''age'' \<notin> set inherited_members"
    by (simp add: inherited_members_def)
  have ord: "''$gt'' \<in> set ordering_operators"
    by (simp add: ordering_operators_def)
  have ne: "Model_matchesQuery ?d [(''age'', Obj [(''$ne'', Num 30)])]"
    by (simp add: Model_matchesQuery_def Object_keys_def get_prop_def)
  from absent_field_conditions[OF absent own, of "Obj [(''$gt'', Num 18)]"
      "[(''age'', Obj [(''$gt'', Num 18)])]"] ord
  have 1: "\<not> Model_matchesQuery ?d [(''age'', Obj [(''$gt'', Num 18)])]
         \<and> RedisModel_matches ?d [(''age'', Obj [(''$gt'', Num 18)])] \<noteq> Inr True"
    by (simp add: Object_keys_def get_prop_def)
  from absent_field_conditions[OF absent own, of "Obj [(''$in'', Arr [Num 1])]"
      "[(''age'', Obj [(''$in'', Arr [Num 1])])]"]
  have 2: "\<not> Model_matchesQuery ?d [(''age'', Obj [(''$in'', Arr [Num 1])])]
         \<and> RedisModel_matches ?d [(''age'', Obj [(''$in'', Arr [Num 1])])] \<noteq> Inr True"
    by (simp add: Object_keys_def get_prop_def known_operators_def)
  from absent_field_conditions[OF absent own, of Null "[(''age'', Null)]"]
  have 3: "\<not> Model_matchesQuery ?d [(''age'', Null)]"
    by simp
  from 1 2 3 ne show ?thesis by simp
qed

text \<open>
  C8 as stated fails. On \<open>RedisModel._matches\<close> the document \<open>{name: "Bob"}\<close>,
  which has no \<open>age\<close>, matches the query \<open>{age: {$gt: undefined}}\<close>, a condition of
  ordering operators only. And a condition on the absent \<open>age\<close> is satisfied without
  \<open>$ne\<close> or \<open>$nin\<close>: on \<open>Model._matchesQuery\<close> by \<open>{age: undefined}\<close>, by
  \<open>{age: {$in: [undefined]}}\<close> and by \<open>{age: {}}\<close>; on \<open>RedisModel._matches\<close>
  by \<open>{age: {$exists: false}}\<close> and by \<open>{age: {$in: "undefined"}}\<close>.
\<close>

theorem absent_field_matches_without_ne_nin:
  "RedisModel_matches [(''name'', Str ''Bob'')] [(''age'', Obj [(''$gt'', Undefined)])] = Inr True
   \<and> Model_matchesQuery [(''name'', Str ''Bob'')] [(''age'', Undefined)]
   \<and> Model_matchesQuery [(''name'', Str ''Bob'')] [(''age'', Obj [(''$in'', Arr [Undefined])])]
   \<and> Model_matchesQuery [(''name'', Str ''Bob'')] [(''age'', Obj [])]
   \<and> RedisModel_matches [(''name'', Str ''Bob'')] [(''age'', Obj [(''$exists'', Bool False)])]
       = Inr True
   \<and> RedisModel_matches [(''name'', Str ''Bob'')] [(''age'', Obj [(''$in'', Str ''undefined'')])]
       = Inr True"
  by (simp add: operators_pass_def Model_matchesQuery_def Object_keys_def get_prop_def
      Array_includes_def)

section \<open>findOneAndUpdate\<close>

lemma get_prop_absent: "f \<notin> set (Object_keys a) \<Longrightarrow> get_prop a f = Undefined"
  by (simp add: get_prop_def Object_keys_def map_of_eq_None_iff[THEN iffD2])

lemma get_prop_spread:
  "get_prop (spread a b) f =
     (if f \<in> set (Object_keys b) then get_prop b f else get_prop a f)"
proof -
  have "get_prop (Object_assign [] a) f = get_prop a f"
    by (simp add: get_prop_assign get_prop_absent) (simp add: get_prop_def)
  then show ?thesis by (simp add: spread_def get_prop_assign)
qed

lemma findOne_of_find:
  "RedisModel_find modelName Q s = Inr (doc # rest) \<Longrightarrow>
   RedisModel_findOne modelName Q s = Inr (Some doc)"
  by (simp add: RedisModel_findOne_def RedisModel_find_def findOne_loop_first first_of_def)

lemma representable_spread:
  "representable_doc a \<Longrightarrow> representable_doc b \<Longrightarrow> representable_doc (spread a b)"
  unfolding spread_def
  by (intro representable_assign) (simp_all add: representable_doc_def)

lemma find_representable:
  assumes "RedisModel_find modelName Q s = Inr (doc # rest)"
  shows "representable_doc doc"
proof -
  from RedisModel_find_set[OF assms, of doc] obtain raw where "JSON_parse raw = doc"
    by auto
  then show ?thesis using representable_JSON_parse by blast
qed

text \<open>
  C4, as amended. Let \<open>find(Q)\<close> return at least one document and let \<open>doc\<close> be
  the first. When the \<open>id\<close> of \<open>doc\<close> is truthy, \<open>findOneAndUpdate(Q, P, options)\<close>
  returns \<open>doc\<close> as it was before the update when \<open>returnNew\<close> is absent or false,
  and the merge \<open>{...doc, ...P}\<close> when it is true; the encoding of the merge is
  written under \<open>modelName:id\<close>, where it decodes to the merge when \<open>P\<close> holds no
  \<open>undefined\<close>, and no other key changes. When the \<open>id\<close> is absent or falsy, the
  call returns nothing and writes nothing. In the merge a field of \<open>P\<close> has the value
  \<open>P\<close> gives it and every other field the value it has in \<open>doc\<close>.
\<close>

theorem findOneAndUpdate_returns:
  assumes "RedisModel_find modelName Q s = Inr (doc # rest)"
  shows "(let merged = spread doc P;
              key = RedisModel_getKey modelName (ToString (get_prop doc ''id''));
              s' = redis_set key (JSON_stringify merged) s
          in (truthy (get_prop doc ''id'') \<longrightarrow>
                RedisModel_findOneAndUpdate modelName Q P returnNew s
                  = Inr (if returnNew = Some True then Some merged else Some doc, s')
                \<and> redis_get key s' = Some (JSON_stringify merged)
                \<and> (representable_doc P \<longrightarrow>
                     map_option JSON_parse (redis_get key s') = Some merged)
                \<and> (\<forall>k. k \<noteq> key \<longrightarrow> redis_get k s' = redis_get k s))
           \<and> (\<not> truthy (get_prop doc ''id'') \<longrightarrow>
                RedisModel_findOneAndUpdate modelName Q P returnNew s = Inr (None, s))
           \<and> (\<forall>f. get_prop merged f =
                 (if f \<in> set (Object_keys P) then get_prop P f else get_prop doc f)))"
  using assms find_representable[OF assms]
  by (simp add: RedisModel_findOneAndUpdate_def findOne_of_find Let_def redis_get_set
      get_prop_spread JSON_parse_stringify representable_spread)

theorem findOneAndUpdate_returns_witness:
  "RedisModel_findOneAndUpdate ''User'' [(''name'', Str ''Bob'')] [(''age'', Num 35)] (Some False)
      [(''User:b'', [(''id'', JStr ''b''), (''name'', JStr ''Bob''), (''age'', JNum 30)])]
     = Inr (Some [(''id'', Str ''b''), (''name'', Str ''Bob''), (''age'', Num 30)],
            [(''User:b'', [(''id'', JStr ''b''), (''name'', JStr ''Bob''), (''age'', JNum 35)])])
   \<and> RedisModel_findOneAndUpdate ''User'' [(''name'', Str ''Bob'')] [(''age'', Num 35)] None
      [(''User:b'', [(''id'', JStr ''b''), (''name'', JStr ''Bob''), (''age'', JNum 30)])]
     = Inr (Some [(''id'', Str ''b''), (''name'', Str ''Bob''), (''age'', Num 30)],
            [(''User:b'', [(''id'', JStr ''b''), (''name'', JStr ''Bob''), (''age'', JNum 35)])])
   \<and> RedisModel_findOneAndUpdate ''User'' [(''name'', Str ''Bob'')] [(''age'', Num 35)] (Some True)
      [(''User:b'', [(''id'', JStr ''b''), (''name'', JStr ''Bob''), (''age'', JNum 30)])]
     = Inr (Some [(''id'', Str ''b''), (''name'', Str ''Bob''), (''age'', Num 35)],
            [(''User:b'', [(''id'', JStr ''b''), (''name'', JStr ''Bob''), (''age'', JNum 35)])])
   \<and> RedisModel_findOneAndUpdate ''User'' [(''name'', Str ''Bob'')] [(''age'', Num 35)] (Some True)
      [(''User:x'', [(''name'', JStr ''Bob''), (''age'', JNum 30)])]
     = Inr (None, [(''User:x'', [(''name'', JStr ''Bob''), (''age'', JNum 30)])])"
proof -
  let ?s = "[(''User:b'', [(''id'', JStr ''b''), (''name'', JStr ''Bob''), (''age'', JNum 30)])]"
  let ?doc = "[(''id'', Str ''b''), (''name'', Str ''Bob''), (''age'', Num 30)]"
  let ?t = "[(''User:x'', [(''name'', JStr ''Bob''), (''age'', JNum 30)])]"
  let ?anon = "[(''name'', Str ''Bob''), (''age'', Num 30)]"
  let ?Q = "[(''name'', Str ''Bob'')]"
  let ?P = "[(''age'', Num 35)]"
  have found: "RedisModel_find ''User'' ?Q ?s = Inr (?doc # [])"
    by (simp add: RedisModel_find_def redis_keys_def redis_get_def JSON_parse_def get_prop_def)
  have found': "RedisModel_find ''User'' ?Q ?t = Inr (?anon # [])"
    by (simp add: RedisModel_find_def redis_keys_def redis_get_def JSON_parse_def get_prop_def)
  have ident: "truthy (get_prop ?doc ''id'')" "\<not> truthy (get_prop ?anon ''id'')"
    by (simp_all add: get_prop_def)
  have merged: "spread ?doc ?P = [(''id'', Str ''b''), (''name'', Str ''Bob''), (''age'', Num 35)]"
    by (simp add: spread_def Object_assign_def Object_keys_def get_prop_def)
  have key: "RedisModel_getKey ''User'' (ToString (get_prop ?doc ''id'')) = ''User:b''"
    by (simp add: RedisModel_getKey_def get_prop_def)
  from findOneAndUpdate_returns[OF found, of ?P "Some False"]
       findOneAndUpdate_returns[OF found, of ?P None]
       findOneAndUpdate_returns[OF found, of ?P "Some True"]
       findOneAndUpdate_returns[OF found', of ?P "Some True"]
       ident
  show ?thesis
    by (simp add: Let_def merged key JSON_stringify_def redis_set_def)
qed

text \<open>
  C4 as stated fails on a stored document whose \<open>id\<close> is the empty string: it
  matches the query, and the call returns nothing and leaves the store as it was.
\<close>

theorem findOneAndUpdate_empty_id:
  "RedisModel_find ''User'' [(''name'', Str ''Bob'')]
      [(''User:'', [(''id'', JStr ''''), (''name'', JStr ''Bob''), (''age'', JNum 30)])]
     = Inr [[(''id'', Str ''''), (''name'', Str ''Bob''), (''age'', Num 30)]]
   \<and> RedisModel_findOneAndUpdate ''User'' [(''name'', Str ''Bob'')] [(''age'', Num 35)] None
      [(''User:'', [(''id'', JStr ''''), (''name'', JStr ''Bob''), (''age'', JNum 30)])]
     = Inr (None, [(''User:'', [(''id'', JStr ''''), (''name'', JStr ''Bob''), (''age'', JNum 30)])])"
  by (simp add: RedisModel_findOneAndUpdate_def RedisModel_findOne_def RedisModel_find_def
      redis_keys_def redis_get_def JSON_parse_def get_prop_def)

section \<open>create\<close>

text \<open>
  C7 fails on \<open>RedisModel.create\<close> of unnamed/part_001: a caller-supplied empty
  \<open>id\<close> is not nullish, so \<open>doc.id ?? uuidv4()\<close> keeps it, and the document is
  persisted under the key \<open>User:\<close> with the empty identity.
\<close>

theorem create_keeps_empty_id:
  "RedisModel_create ''1b9d6bcd'' ''User''
      [(''id'', Str ''''), (''name'', Str ''Bob''), (''age'', Num 30)] []
     = ([(''id'', Str ''''), (''name'', Str ''Bob''), (''age'', Num 30)],
        [(''User:'', [(''id'', JStr ''''), (''name'', JStr ''Bob''), (''age'', JNum 30)])])"
  by (simp add: RedisModel_create_def nullish_or_def spread_def Object_assign_def Object_keys_def
      get_prop_def RedisModel_getKey_def JSON_stringify_def redis_set_def)

text \<open>
  The \<open>create\<close> of src/redis-orm.ts generates an identifier on the same input, and
  on every input its \<open>id\<close> is truthy when the generated identifier is not empty.
  \<open>Model.create\<close> sets \<open>_id\<close> to the generated identifier unless the schema itself
  declares a field \<open>_id\<close>, which then overwrites it.
\<close>

lemma create_v1_generates:
  "RedisModel_create_v1 ''1b9d6bcd'' ''User''
      [(''id'', Str ''''), (''name'', Str ''Bob''), (''age'', Num 30)] []
     = ([(''id'', Str ''1b9d6bcd''), (''name'', Str ''Bob''), (''age'', Num 30)],
        [(''User:1b9d6bcd'', [(''id'', JStr ''1b9d6bcd''), (''name'', JStr ''Bob''), (''age'', JNum 30)])])"
  by (simp add: RedisModel_create_v1_def logical_or_def spread_def Object_assign_def Object_keys_def
      get_prop_def RedisModel_getKey_def JSON_stringify_def redis_set_def)

lemma create_v1_id_truthy:
  "uuid \<noteq> [] \<Longrightarrow> truthy (get_prop (fst (RedisModel_create_v1 uuid modelName doc s)) ''id'')"
proof -
  have "get_prop (spread doc [(''id'', v)]) ''id'' = v" for v
    by (simp add: get_prop_spread Object_keys_def) (simp add: get_prop_def)
  moreover assume "uuid \<noteq> []"
  ultimately show ?thesis
    by (simp add: RedisModel_create_v1_def Let_def logical_or_def)
qed

lemma Model_create_id:
  assumes "''_id'' \<notin> set schema"
  shows "get_prop (fst (Model_create uuid name schema data s)) ''_id'' = Str uuid"
proof -
  from assms
    map_of_assign_loop[of "\<lambda>field. nullish_or (get_prop data field) Null"
      "[(''_id'', Str uuid)]" schema "''_id''"]
  have "map_of (fst (Model_create uuid name schema data s)) ''_id'' = Some (Str uuid)"
    by (simp add: Model_create_def Let_def)
  then show ?thesis by (simp add: get_prop_def)
qed

lemma Model_create_schema_id:
  "Model_create ''1b9d6bcd'' ''User'' [''_id'', ''name''] [(''name'', Str ''Bob'')] []
     = ([(''_id'', Null), (''name'', Str ''Bob'')],
        [(''User:1b9d6bcd'', [(''_id'', JNull), (''name'', JStr ''Bob'')])])"
  by (simp add: Model_create_def nullish_or_def get_prop_def Model_key_def JSON_stringify_def
      redis_set_def)

end
